theory Spec2Isabelle
  imports Main "HOL-Library.Char_ord" "HOL-Library.List_Lexorder" "HOL-Library.AList"
begin

section \<open>Strings and characters\<close>

text \<open>
  The manifest builder \<^verbatim>\<open>create-json.py\<close> works on Python \<^verbatim>\<open>str\<close> values. A
  \<^typ>\<open>char\<close> stands for one code point below 256 (ASCII and the Latin-1 block), a
  \<^typ>\<open>string\<close> for a \<^verbatim>\<open>str\<close> of such code points; \<^verbatim>\<open>len\<close> is
  \<^const>\<open>length\<close>. On that block \<^verbatim>\<open>\d\<close> is \<^verbatim>\<open>[0-9]\<close>, NFC normalisation is
  the identity, and \<^verbatim>\<open>str.lower\<close> is the map \<open>lower_char\<close> below. Python compares
  strings code point by code point, which is the lexicographic order of
  \<^verbatim>\<open>List_Lexorder\<close> over the code point order of \<^verbatim>\<open>Char_ord\<close>.
\<close>

definition code :: "char \<Rightarrow> nat" where
  "code c = of_char c"

definition is_digit :: "char \<Rightarrow> bool" where
  "is_digit c = (48 \<le> code c \<and> code c \<le> 57)"

definition is_upper :: "char \<Rightarrow> bool" where
  "is_upper c = (65 \<le> code c \<and> code c \<le> 90)"

definition is_lower :: "char \<Rightarrow> bool" where
  "is_lower c = (97 \<le> code c \<and> code c \<le> 122)"

definition is_letter :: "char \<Rightarrow> bool" where
  \<comment> \<open>\<^verbatim>\<open>[A-Za-z]\<close>\<close>
  "is_letter c = (is_upper c \<or> is_lower c)"

definition is_alnum :: "char \<Rightarrow> bool" where
  \<comment> \<open>\<^verbatim>\<open>[A-Za-z0-9]\<close>\<close>
  "is_alnum c = (is_letter c \<or> is_digit c)"

definition is_note_letter :: "char \<Rightarrow> bool" where
  \<comment> \<open>\<^verbatim>\<open>[A-Ga-g]\<close>\<close>
  "is_note_letter c = ((65 \<le> code c \<and> code c \<le> 71) \<or> (97 \<le> code c \<and> code c \<le> 103))"

definition is_accidental :: "char \<Rightarrow> bool" where
  \<comment> \<open>\<^verbatim>\<open>[#b]\<close>\<close>
  "is_accidental c = (c = CHR ''#'' \<or> c = CHR ''b'')"

definition is_delim :: "char \<Rightarrow> bool" where
  \<comment> \<open>\<^verbatim>\<open>[ _\-]\<close>\<close>
  "is_delim c = (c = CHR '' '' \<or> c = CHR ''_'' \<or> c = CHR ''-'')"

definition is_slug_char :: "char \<Rightarrow> bool" where
  \<comment> \<open>\<^verbatim>\<open>[a-z0-9]\<close>\<close>
  "is_slug_char c = (is_lower c \<or> is_digit c)"

definition newline :: char where
  "newline = char_of (10 :: nat)"

definition lower_char :: "char \<Rightarrow> char" where
  \<comment> \<open>\<^verbatim>\<open>str.lower\<close> on one code point below 256: A-Z, and the Latin-1 capitals
      U+00C0..U+00DE without the multiplication sign U+00D7, move up by 32.\<close>
  "lower_char c =
     (if is_upper c \<or> (192 \<le> code c \<and> code c \<le> 222 \<and> code c \<noteq> 215)
      then char_of (code c + 32) else c)"

definition lc :: "string \<Rightarrow> string" where
  "lc s = map lower_char s"

text \<open>\<^verbatim>\<open>re.sub(r"[^a-z0-9]+", "_", s)\<close>: every maximal run of characters outside
  \<^verbatim>\<open>[a-z0-9]\<close> becomes one underscore, written when the run's last character is read.\<close>

fun sub_runs :: "string \<Rightarrow> string" where
  "sub_runs [] = []"
| "sub_runs (c # cs) =
     (if is_slug_char c then c # sub_runs cs
      else (case cs of
              [] \<Rightarrow> ''_''
            | d # _ \<Rightarrow> if is_slug_char d then CHR ''_'' # sub_runs cs else sub_runs cs))"

definition strip_us :: "string \<Rightarrow> string" where
  \<comment> \<open>\<^verbatim>\<open>s.strip("_")\<close>\<close>
  "strip_us s = rev (dropWhile (\<lambda>c. c = CHR ''_'') (rev (dropWhile (\<lambda>c. c = CHR ''_'') s)))"

definition slug :: "string \<Rightarrow> string" where
  "slug s = strip_us (sub_runs (lc s))"

text \<open>\<^verbatim>\<open>s.split(sep)\<close> for a one-character separator: never the empty list.\<close>

fun split_on :: "char \<Rightarrow> string \<Rightarrow> string list" where
  "split_on sep [] = [[]]"
| "split_on sep (c # cs) =
     (if c = sep then [] # split_on sep cs
      else (case split_on sep cs of [] \<Rightarrow> [[c]] | w # ws \<Rightarrow> (c # w) # ws))"

definition endswith :: "string \<Rightarrow> string \<Rightarrow> bool" where
  "endswith s suf = (length suf \<le> length s \<and> drop (length s - length suf) s = suf)"

definition startswith :: "string \<Rightarrow> string \<Rightarrow> bool" where
  "startswith s pre = (take (length pre) s = pre)"

text \<open>\<^verbatim>\<open>int(digits)\<close> and \<^verbatim>\<open>str(n)\<close> for natural numbers in decimal.\<close>

definition digit_val :: "char \<Rightarrow> nat" where
  "digit_val c = code c - 48"

definition int_of_digits :: "string \<Rightarrow> nat" where
  "int_of_digits s = foldl (\<lambda>a c. 10 * a + digit_val c) 0 s"

definition digit_char :: "nat \<Rightarrow> char" where
  "digit_char d = char_of (48 + d)"

function str_of_nat :: "nat \<Rightarrow> string" where
  "str_of_nat n = (if n < 10 then [digit_char n] else str_of_nat (n div 10) @ [digit_char (n mod 10)])"
  by pat_completeness auto
termination
  by (relation "measure id") auto

declare str_of_nat.simps [simp del]

section \<open>Token normaliser\<close>

definition SHARP2FLAT :: "(string \<times> string) list" where
  "SHARP2FLAT = [(''c#'', ''db''), (''d#'', ''eb''), (''f#'', ''f#''), (''g#'', ''ab''), (''a#'', ''bb'')]"

definition normalize_note :: "string \<Rightarrow> string" where
  "normalize_note note =
     (let n = lc note in
      if endswith n ''#'' then (case map_of SHARP2FLAT n of Some v \<Rightarrow> v | None \<Rightarrow> n)
      else if endswith n ''b'' then n
      else n)"

section \<open>Feature extractors\<close>

text \<open>
  The three compiled patterns are matched by hand. A \<open>*_match_at s i\<close> function is one
  attempt of the backtracking matcher at start position \<open>i\<close> of \<open>s\<close>: alternatives are
  tried from left to right, a greedy optional part first with and then without its
  text, and the first complete success is returned. \<^verbatim>\<open>^\<close> holds at position 0 only;
  \<^verbatim>\<open>$\<close> (no MULTILINE flag) holds at the end of the string and also just before a
  newline that is the last character.
\<close>

fun first_some :: "'a option list \<Rightarrow> 'a option" where
  "first_some [] = None"
| "first_some (None # xs) = first_some xs"
| "first_some (Some x # xs) = Some x"

definition at_dollar :: "string \<Rightarrow> bool" where
  \<comment> \<open>\<^verbatim>\<open>$\<close>, given the text that remains to the right of the position\<close>
  "at_dollar rest = (rest = [] \<or> rest = [newline])"

subsection \<open>Tempo: \<^verbatim>\<open>(?:^|[ _\-])(\d{2,3})(?=$|[ _\-])\<close>\<close>

definition bpm_lookahead :: "string \<Rightarrow> bool" where
  \<comment> \<open>\<^verbatim>\<open>(?=$|[ _\-])\<close>\<close>
  "bpm_lookahead rest = (at_dollar rest \<or> (case rest of [] \<Rightarrow> False | c # _ \<Rightarrow> is_delim c))"

definition bpm_digits_n :: "nat \<Rightarrow> string \<Rightarrow> (string \<times> nat) option" where
  \<comment> \<open>exactly \<open>n\<close> digits, then the lookahead; the group and the number of characters read\<close>
  "bpm_digits_n n xs =
     (if n \<le> length xs \<and> list_all is_digit (take n xs) \<and> bpm_lookahead (drop n xs)
      then Some (take n xs, n) else None)"

definition bpm_digits :: "string \<Rightarrow> (string \<times> nat) option" where
  \<comment> \<open>\<^verbatim>\<open>(\d{2,3})(?=...)\<close>, greedy: three digits are tried before two\<close>
  "bpm_digits xs = first_some [bpm_digits_n 3 xs, bpm_digits_n 2 xs]"

definition bpm_match_at :: "string \<Rightarrow> nat \<Rightarrow> (string \<times> nat) option" where
  \<comment> \<open>group 1 and the end position of the match\<close>
  "bpm_match_at s i =
     first_some
       [if i = 0 then bpm_digits s else None,
        case drop i s of
          [] \<Rightarrow> None
        | c # rest \<Rightarrow>
            if is_delim c then map_option (\<lambda>(g, n). (g, i + 1 + n)) (bpm_digits rest) else None]"

text \<open>\<^verbatim>\<open>finditer\<close>: successive non-overlapping matches, scanning start positions from
  left to right and resuming at the end of each match.\<close>

function finditer_from :: "(string \<Rightarrow> nat \<Rightarrow> ('g \<times> nat) option) \<Rightarrow> string \<Rightarrow> nat \<Rightarrow> 'g list" where
  "finditer_from m s i =
     (if length s < i then []
      else (case m s i of
              None \<Rightarrow> finditer_from m s (Suc i)
            | Some (g, e) \<Rightarrow> g # finditer_from m s (max e (Suc i))))"
  by pat_completeness auto
termination
  by (relation "measure (\<lambda>(m, s, i). Suc (length s) - i)") auto

declare finditer_from.simps [simp del]

definition get_bpm :: "string \<Rightarrow> nat option" where
  "get_bpm stem =
     (let s = lc stem;
          cands = map int_of_digits (finditer_from bpm_match_at s 0);
          cands = filter (\<lambda>b. 40 \<le> b \<and> b < 200) cands
      in if cands = [] then None else Some (last cands))"

subsection \<open>Key with octave: \<^verbatim>\<open>(?:^|[^A-Za-z])([A-Ga-g])([#b]?)(\d)(?=[^A-Za-z0-9]|$)\<close>\<close>

definition oct_lookahead :: "string \<Rightarrow> bool" where
  \<comment> \<open>\<^verbatim>\<open>(?=[^A-Za-z0-9]|$)\<close>\<close>
  "oct_lookahead rest = ((case rest of [] \<Rightarrow> False | c # _ \<Rightarrow> \<not> is_alnum c) \<or> at_dollar rest)"

definition oct_digit :: "string \<Rightarrow> string \<Rightarrow> string \<Rightarrow> (string \<times> string \<times> string) option" where
  \<comment> \<open>\<^verbatim>\<open>(\d)(?=...)\<close> after letter \<open>l\<close> and accidental \<open>a\<close>\<close>
  "oct_digit l a xs =
     (case xs of
        [] \<Rightarrow> None
      | d # rest \<Rightarrow> if is_digit d \<and> oct_lookahead rest then Some (l, a, [d]) else None)"

definition oct_body :: "string \<Rightarrow> (string \<times> string \<times> string) option" where
  \<comment> \<open>\<^verbatim>\<open>([A-Ga-g])([#b]?)(\d)(?=...)\<close>: groups 1, 2 and 3\<close>
  "oct_body xs =
     (case xs of
        [] \<Rightarrow> None
      | l # r \<Rightarrow>
          if is_note_letter l then
            first_some
              [case r of [] \<Rightarrow> None
                 | a # r' \<Rightarrow> if is_accidental a then oct_digit [l] [a] r' else None,
               oct_digit [l] [] r]
          else None)"

definition oct_match_at :: "string \<Rightarrow> nat \<Rightarrow> (string \<times> string \<times> string) option" where
  "oct_match_at s i =
     first_some
       [if i = 0 then oct_body s else None,
        case drop i s of
          [] \<Rightarrow> None
        | c # rest \<Rightarrow> if \<not> is_letter c then oct_body rest else None]"

subsection \<open>Bare key: \<^verbatim>\<open>(?:^|[ _\-])([A-Ga-g])([#b]?)(maj|min|m)?(?=$|[ _\-\d])\<close>\<close>

definition tok_lookahead :: "string \<Rightarrow> bool" where
  \<comment> \<open>\<^verbatim>\<open>(?=$|[ _\-\d])\<close>\<close>
  "tok_lookahead rest =
     (at_dollar rest \<or> (case rest of [] \<Rightarrow> False | c # _ \<Rightarrow> is_delim c \<or> is_digit c))"

definition tok_qual :: "string \<Rightarrow> string \<Rightarrow> string \<Rightarrow> string \<Rightarrow> (string \<times> string \<times> string) option" where
  \<comment> \<open>one alternative \<open>q\<close> of \<^verbatim>\<open>(maj|min|m)?\<close> (the empty string: the group is skipped),
      then the lookahead\<close>
  "tok_qual l a q xs =
     (if startswith xs q \<and> tok_lookahead (drop (length q) xs) then Some (l, a, q) else None)"

definition tok_quals :: "string \<Rightarrow> string \<Rightarrow> string \<Rightarrow> (string \<times> string \<times> string) option" where
  "tok_quals l a xs =
     first_some [tok_qual l a ''maj'' xs, tok_qual l a ''min'' xs, tok_qual l a ''m'' xs,
                 tok_qual l a [] xs]"

definition tok_body :: "string \<Rightarrow> (string \<times> string \<times> string) option" where
  "tok_body xs =
     (case xs of
        [] \<Rightarrow> None
      | l # r \<Rightarrow>
          if is_note_letter l then
            first_some
              [case r of [] \<Rightarrow> None
                 | a # r' \<Rightarrow> if is_accidental a then tok_quals [l] [a] r' else None,
               tok_quals [l] [] r]
          else None)"

definition tok_match_at :: "string \<Rightarrow> nat \<Rightarrow> (string \<times> string \<times> string) option" where
  "tok_match_at s i =
     first_some
       [if i = 0 then tok_body s else None,
        case drop i s of
          [] \<Rightarrow> None
        | c # rest \<Rightarrow> if is_delim c then tok_body rest else None]"

text \<open>\<^verbatim>\<open>pattern.search(s)\<close>: the match at the leftmost start position that has one.\<close>

function search_from :: "(string \<Rightarrow> nat \<Rightarrow> 'g option) \<Rightarrow> string \<Rightarrow> nat \<Rightarrow> 'g option" where
  "search_from m s i =
     (if length s < i then None
      else (case m s i of
              None \<Rightarrow> search_from m s (Suc i)
            | Some g \<Rightarrow> Some g))"
  by pat_completeness auto
termination
  by (relation "measure (\<lambda>(m, s, i). Suc (length s) - i)") auto

declare search_from.simps [simp del]

record key_info =
  root :: string
  minor :: bool
  oct :: "nat option"

definition get_key :: "string \<Rightarrow> key_info option" where
  "get_key stem =
     (let s = lc stem in
      case search_from oct_match_at s 0 of
        Some (l, a, d) \<Rightarrow>
          Some \<lparr>root = normalize_note (l @ a), minor = False, oct = Some (int_of_digits d)\<rparr>
      | None \<Rightarrow>
          (case search_from tok_match_at s 0 of
             Some (l, a, q) \<Rightarrow>
               Some \<lparr>root = normalize_note (l @ a),
                     minor = (lc q = ''m'' \<or> lc q = ''min''), oct = None\<rparr>
           | None \<Rightarrow> None))"

section \<open>Path helpers\<close>

text \<open>
  A discovered file is known by its POSIX path relative to the scanned root, as
  \<^verbatim>\<open>p.relative_to(root).as_posix()\<close> gives it: segments separated by \<^verbatim>\<open>/\<close>, none of
  them empty. \<open>path_suffix\<close> and \<open>path_stem\<close> are \<^verbatim>\<open>PurePath.suffix\<close> and
  \<^verbatim>\<open>PurePath.stem\<close> (the rule \<^verbatim>\<open>0 < i < len(name) - 1\<close> for the last dot at index
  \<open>i\<close> of the final segment).
\<close>

definition path_name :: "string \<Rightarrow> string" where
  "path_name rel = last (split_on CHR ''/'' rel)"

definition has_suffix :: "string \<Rightarrow> bool" where
  \<comment> \<open>the name has a last dot at an index \<open>i\<close> with \<open>0 < i < len(name) - 1\<close>\<close>
  "has_suffix name =
     (let t = takeWhile (\<lambda>c. c \<noteq> CHR ''.'') (rev name)
      in CHR ''.'' \<in> set name \<and> t \<noteq> [] \<and> length t + 1 < length name)"

definition path_suffix :: "string \<Rightarrow> string" where
  "path_suffix rel =
     (let name = path_name rel; t = takeWhile (\<lambda>c. c \<noteq> CHR ''.'') (rev name)
      in if has_suffix name then CHR ''.'' # rev t else [])"

definition path_stem :: "string \<Rightarrow> string" where
  "path_stem rel =
     (let name = path_name rel; t = takeWhile (\<lambda>c. c \<noteq> CHR ''.'') (rev name)
      in if has_suffix name then take (length name - length t - 1) name else name)"

definition AUDIO_EXTS :: "string list" where
  "AUDIO_EXTS = [''.wav'', ''.aif'', ''.aiff'', ''.flac'', ''.mp3'', ''.ogg'']"

definition GENERIC_FOLDERS :: "string list" where
  "GENERIC_FOLDERS =
     [''loops'', ''loop'', ''one shots'', ''oneshots'', ''one_shots'', ''samples'', ''audio'',
      ''stems'', ''custom'', ''customs'', ''sounds'', ''sound'', ''fx'', ''sfx'', ''effects'',
      ''drums'']"

definition DRUM_LOOP_GROUPS :: "(string \<times> string) list" where
  "DRUM_LOOP_GROUPS =
     [(''breaks'', ''breaks''), (''claps'', ''claps''), (''shakers'', ''shakers''),
      (''woodblock'', ''woodblock''), (''woodblck'', ''woodblock'')]"

definition has_seg :: "string \<Rightarrow> string \<Rightarrow> bool" where
  "has_seg rel name = list_ex (\<lambda>seg. slug seg = name) (split_on CHR ''/'' rel)"

definition is_loops_folder :: "string \<Rightarrow> bool" where
  "is_loops_folder rel = (has_seg rel ''loop'' \<or> has_seg rel ''loops'')"

definition is_drums_loops :: "string \<Rightarrow> bool" where
  "is_drums_loops rel = (has_seg rel ''drums'' \<and> is_loops_folder rel)"

fun first_group :: "string list \<Rightarrow> string option" where
  "first_group [] = None"
| "first_group (seg # segs) =
     (case map_of DRUM_LOOP_GROUPS (slug seg) of
        Some g \<Rightarrow> Some g
      | None \<Rightarrow> first_group segs)"

definition detect_drums_group :: "string \<Rightarrow> string option" where
  "detect_drums_group rel = first_group (split_on CHR ''/'' rel)"

definition or_inst :: "string \<Rightarrow> string" where
  \<comment> \<open>\<^verbatim>\<open>seg or "inst"\<close>\<close>
  "or_inst seg = (if seg = [] then ''inst'' else seg)"

definition singular :: "string \<Rightarrow> string" where
  "singular seg = (if endswith seg ''s'' \<and> \<not> endswith seg ''ss'' then butlast seg else seg)"

definition replace_us :: "string \<Rightarrow> string" where
  \<comment> \<open>\<^verbatim>\<open>seg.replace("_", " ")\<close>\<close>
  "replace_us seg = map (\<lambda>c. if c = CHR ''_'' then CHR '' '' else c) seg"

fun first_specific :: "string list \<Rightarrow> string option" where
  "first_specific [] = None"
| "first_specific (seg # segs) =
     (if replace_us seg \<notin> set GENERIC_FOLDERS then Some (or_inst (singular seg))
      else first_specific segs)"

definition guess_instrument :: "string \<Rightarrow> string" where
  "guess_instrument rel =
     (let segs = map slug (split_on CHR ''/'' rel) in
      case first_specific (rev (butlast segs)) of
        Some inst \<Rightarrow> inst
      | None \<Rightarrow>
          (case split_on CHR ''_'' (slug (path_stem rel)) of
             [] \<Rightarrow> ''inst''
           | w # _ \<Rightarrow> or_inst w))"

definition walk_audio :: "string list \<Rightarrow> string list" where
  \<comment> \<open>the files of the tree, in traversal order, that pass the extension filter\<close>
  "walk_audio paths = filter (\<lambda>p. lc (path_suffix p) \<in> set AUDIO_EXTS) paths"

section \<open>Classification decision\<close>

text \<open>
  The body of the loop of \<^verbatim>\<open>main\<close> first chooses a bucket key and the branch that
  files the path (\<open>classify\<close>), then mutates \<^verbatim>\<open>buckets\<close> (\<open>contribute\<close>).
\<close>

datatype contribution =
    DrumsLoop string
  | GenericLoop string
  | Pitched string string
  | Unpitched string

definition generic_loop_key :: "string \<Rightarrow> nat option \<Rightarrow> key_info option \<Rightarrow> string" where
  "generic_loop_key prefix bpm keyi =
     (case (bpm, keyi) of
        (Some b, Some k) \<Rightarrow>
          prefix @ ''_'' @ str_of_nat b @ ''_'' @ (root k @ (if minor k then ''m'' else []))
      | (Some b, None) \<Rightarrow> prefix @ ''_'' @ str_of_nat b
      | (None, _) \<Rightarrow> prefix @ ''_loops'')"

definition classify :: "string \<Rightarrow> string \<Rightarrow> string \<Rightarrow> contribution" where
  "classify prefix rel stem =
     (let bpm = get_bpm stem; keyi = get_key stem in
      if is_loops_folder rel \<or> (bpm \<noteq> None \<and> keyi \<noteq> None) then
        (case (if is_drums_loops rel then detect_drums_group rel else None) of
           Some grp \<Rightarrow>
             if grp \<noteq> [] then
               DrumsLoop (prefix @ ''_'' @ grp @
                          (case bpm of Some b \<Rightarrow> ''_'' @ str_of_nat b | None \<Rightarrow> []))
             else GenericLoop (generic_loop_key prefix bpm keyi)
         | None \<Rightarrow> GenericLoop (generic_loop_key prefix bpm keyi))
      else
        (let keyname = prefix @ ''_'' @ guess_instrument rel in
         case keyi of
           Some k \<Rightarrow>
             Pitched keyname (root k @ str_of_nat (case oct k of Some n \<Rightarrow> n | None \<Rightarrow> 4))
         | None \<Rightarrow> Unpitched keyname))"

section \<open>Bucket aggregator\<close>

text \<open>
  A Python \<^verbatim>\<open>dict\<close> is an association list in insertion order with distinct keys:
  \<^const>\<open>map_of\<close> reads it and \<^const>\<open>AList.update\<close> assigns to a key, in place when the
  key is present and at the end when it is new. A bucket is a list of paths or a
  dictionary from pitch labels to lists of paths.
\<close>

datatype bucket = PlainList "string list" | PitchMap "(string \<times> string list) list"

datatype error = AttributeError | KeyError

type_synonym buckets = "(string \<times> bucket) list"

definition append_new :: "string \<Rightarrow> string list \<Rightarrow> string list" where
  \<comment> \<open>\<^verbatim>\<open>if rel not in l: l.append(rel)\<close>\<close>
  "append_new rel l = (if rel \<in> set l then l else l @ [rel])"

definition setdefault :: "'k \<Rightarrow> 'v \<Rightarrow> ('k \<times> 'v) list \<Rightarrow> ('k \<times> 'v) list" where
  "setdefault k d al = (case map_of al k of None \<Rightarrow> AList.update k d al | Some _ \<Rightarrow> al)"

definition add_to_list :: "string \<Rightarrow> string \<Rightarrow> buckets \<Rightarrow> error + buckets" where
  \<comment> \<open>\<^verbatim>\<open>buckets.setdefault(key, []); if rel not in buckets[key]: buckets[key].append(rel)\<close>.
      On a dictionary \<^verbatim>\<open>in\<close> tests the keys, and \<^verbatim>\<open>append\<close> does not exist.\<close>
  "add_to_list key rel bs =
     (let bs = setdefault key (PlainList []) bs in
      case map_of bs key of
        None \<Rightarrow> Inl KeyError
      | Some (PlainList l) \<Rightarrow> Inr (AList.update key (PlainList (append_new rel l)) bs)
      | Some (PitchMap m) \<Rightarrow> if rel \<in> set (map fst m) then Inr bs else Inl AttributeError)"

definition add_under :: "string \<Rightarrow> string \<Rightarrow> (string \<times> string list) list \<Rightarrow> error + (string \<times> string list) list" where
  \<comment> \<open>\<^verbatim>\<open>d.setdefault(label, []); if rel not in d[label]: d[label].append(rel)\<close>\<close>
  "add_under label rel d =
     (let d = setdefault label [] d in
      case map_of d label of
        None \<Rightarrow> Inl KeyError
      | Some l \<Rightarrow> Inr (AList.update label (append_new rel l) d))"

definition ensure_map :: "bucket \<Rightarrow> (string \<times> string list) list" where
  "ensure_map b =
     (case b of
        PitchMap d \<Rightarrow> d
      | PlainList l \<Rightarrow> [(''unpitched'', if l \<noteq> [] then l else [])])"

fun contribute :: "contribution \<Rightarrow> string \<Rightarrow> buckets \<Rightarrow> error + buckets" where
  "contribute (DrumsLoop key) rel bs = add_to_list key rel bs"
| "contribute (GenericLoop key) rel bs = add_to_list key rel bs"
| "contribute (Pitched keyname pitch) rel bs =
     (let d = ensure_map (case map_of bs keyname of None \<Rightarrow> PitchMap [] | Some b \<Rightarrow> b) in
      case add_under pitch rel d of
        Inl e \<Rightarrow> Inl e
      | Inr d' \<Rightarrow> Inr (AList.update keyname (PitchMap d') bs))"
| "contribute (Unpitched keyname) rel bs =
     (case map_of bs keyname of
        Some (PitchMap d) \<Rightarrow>
          (case add_under ''unpitched'' rel d of
             Inl e \<Rightarrow> Inl e
           | Inr d' \<Rightarrow> Inr (AList.update keyname (PitchMap d') bs))
      | _ \<Rightarrow> add_to_list keyname rel bs)"

definition process_file :: "string \<Rightarrow> string \<Rightarrow> buckets \<Rightarrow> error + buckets" where
  \<comment> \<open>one iteration of the loop of \<^verbatim>\<open>main\<close> for the file at relative path \<open>rel\<close>\<close>
  "process_file prefix rel bs = contribute (classify prefix rel (path_stem rel)) rel bs"

fun process_all :: "string \<Rightarrow> string list \<Rightarrow> buckets \<Rightarrow> error + buckets" where
  "process_all prefix [] bs = Inr bs"
| "process_all prefix (rel # rels) bs =
     (case process_file prefix rel bs of
        Inl e \<Rightarrow> Inl e
      | Inr bs' \<Rightarrow> process_all prefix rels bs')"

section \<open>Deterministic assembler\<close>

datatype entry = Base string | Paths "string list" | Pitches "(string \<times> string list) list"

type_synonym manifest = "(string \<times> entry) list"

definition sort_items :: "(string \<times> 'v) list \<Rightarrow> (string \<times> 'v) list" where
  \<comment> \<open>\<^verbatim>\<open>sorted(d.items())\<close>: the keys of a dictionary are distinct, so the pairs are
      ordered by their keys alone\<close>
  "sort_items d = sort_key fst d"

definition sort_map :: "(string \<times> string list) list \<Rightarrow> (string \<times> string list) list" where
  "sort_map d = map (\<lambda>(k, v). (k, sort v)) (sort_items d)"

definition sorted_bucket :: "bucket \<Rightarrow> entry" where
  "sorted_bucket v = (case v of PitchMap d \<Rightarrow> Pitches (sort_map d) | PlainList l \<Rightarrow> Paths (sort l))"

definition assemble :: "string \<Rightarrow> buckets \<Rightarrow> manifest" where
  "assemble base bs =
     sort_items (fold (\<lambda>(k, v) m. AList.update k (sorted_bucket v) m) bs [(''_base'', Base base)])"

definition resolve_prefix :: "string option \<Rightarrow> string \<Rightarrow> string" where
  \<comment> \<open>\<^verbatim>\<open>args.prefix or slug(root.name)\<close>\<close>
  "resolve_prefix arg root_name =
     (case arg of None \<Rightarrow> slug root_name | Some p \<Rightarrow> if p = [] then slug root_name else p)"

definition main :: "string \<Rightarrow> string \<Rightarrow> string list \<Rightarrow> error + manifest" where
  \<comment> \<open>the manifest that \<^verbatim>\<open>main\<close> prints for the files \<open>paths\<close> of the tree, listed in
      traversal order, or the exception that ends the run\<close>
  "main prefix base paths =
     (case process_all prefix (walk_audio paths) [] of
        Inl e \<Rightarrow> Inl e
      | Inr bs \<Rightarrow> Inr (assemble base bs))"

section \<open>Notions used by the properties\<close>

text \<open>The twelve pitch names of the data model: flats everywhere, except that
  \<^verbatim>\<open>f#\<close> stays sharp.\<close>

definition canonical_labels :: "string list" where
  "canonical_labels =
     [''c'', ''db'', ''d'', ''eb'', ''e'', ''f'', ''f#'', ''g'', ''ab'', ''a'', ''bb'', ''b'']"

text \<open>The note spellings that \<open>normalize_note\<close> brings to a canonical label: the seven
  naturals, the five sharps of \<open>SHARP2FLAT\<close> and the four canonical flats.\<close>

definition plain_spellings :: "string list" where
  "plain_spellings =
     [''c'', ''d'', ''e'', ''f'', ''g'', ''a'', ''b'',
      ''c#'', ''d#'', ''f#'', ''g#'', ''a#'', ''db'', ''eb'', ''ab'', ''bb'']"

definition is_loop_contribution :: "contribution \<Rightarrow> bool" where
  \<comment> \<open>the file went through the loop branch of \<^verbatim>\<open>main\<close>\<close>
  "is_loop_contribution c =
     (case c of DrumsLoop _ \<Rightarrow> True | GenericLoop _ \<Rightarrow> True | _ \<Rightarrow> False)"

text \<open>The contribution is a pitched one-shot for bucket \<open>k\<close>.\<close>

definition is_pitched_for :: "string \<Rightarrow> contribution \<Rightarrow> bool" where
  "is_pitched_for k c = (case c of Pitched k' _ \<Rightarrow> k' = k | _ \<Rightarrow> False)"

text \<open>A pitch map \<open>d'\<close> has every label of \<open>d\<close>, with at least the paths it has in \<open>d\<close>.\<close>

definition keeps_entries :: "(string \<times> string list) list \<Rightarrow> (string \<times> string list) list \<Rightarrow> bool" where
  "keeps_entries d d' =
     (\<forall>p l. map_of d p = Some l \<longrightarrow> (\<exists>l'. map_of d' p = Some l' \<and> set l \<subseteq> set l'))"

text \<open>Buckets hold lists without duplicates under distinct keys; a manifest entry is
  well formed when its lists and pitch labels are sorted and free of duplicates.\<close>

definition wf_bucket :: "bucket \<Rightarrow> bool" where
  "wf_bucket b =
     (case b of
        PlainList l \<Rightarrow> distinct l
      | PitchMap d \<Rightarrow> distinct (map fst d) \<and> (\<forall>(p, l) \<in> set d. distinct l))"

definition wf_buckets :: "buckets \<Rightarrow> bool" where
  "wf_buckets bs = (distinct (map fst bs) \<and> (\<forall>(k, b) \<in> set bs. wf_bucket b))"

definition wf_entry :: "entry \<Rightarrow> bool" where
  "wf_entry e =
     (case e of
        Base _ \<Rightarrow> True
      | Paths l \<Rightarrow> sorted l \<and> distinct l
      | Pitches d \<Rightarrow>
          sorted (map fst d) \<and> distinct (map fst d) \<and> (\<forall>(p, l) \<in> set d. sorted l \<and> distinct l))"

text \<open>
  Tempo tokens, as the specification describes them: \<open>n\<close> digits starting at index \<open>j\<close>
  of the stem, with the start of the stem or a delimiter (space, underscore, hyphen)
  just before them and, just after them, what the parameter \<open>R\<close> accepts:
  \<open>right_delimited\<close> is the end of the stem or a delimiter; \<open>right_delimited_nl\<close>
  accepts in addition a newline that is the last character of the stem, as Python's
  \<^verbatim>\<open>$\<close> does. \<open>last_tempo\<close> is the value of the last token of two or three digits
  whose value lies in [40, 200).
\<close>

definition left_delimited :: "string \<Rightarrow> nat \<Rightarrow> bool" where
  "left_delimited s j = (j = 0 \<or> is_delim (s ! (j - 1)))"

definition right_delimited :: "string \<Rightarrow> nat \<Rightarrow> bool" where
  "right_delimited s e = (e = length s \<or> (e < length s \<and> is_delim (s ! e)))"

definition right_delimited_nl :: "string \<Rightarrow> nat \<Rightarrow> bool" where
  "right_delimited_nl s e = (right_delimited s e \<or> (Suc e = length s \<and> s ! e = newline))"

definition digits_at :: "string \<Rightarrow> nat \<Rightarrow> nat \<Rightarrow> bool" where
  "digits_at s j n = (j + n \<le> length s \<and> list_all is_digit (take n (drop j s)))"

definition tempo_token :: "(string \<Rightarrow> nat \<Rightarrow> bool) \<Rightarrow> string \<Rightarrow> nat \<Rightarrow> nat \<Rightarrow> bool" where
  "tempo_token R s j n = (digits_at s j n \<and> left_delimited s j \<and> R s (j + n))"

definition tokens_at :: "(string \<Rightarrow> nat \<Rightarrow> bool) \<Rightarrow> string \<Rightarrow> nat \<Rightarrow> string list" where
  "tokens_at R s j = map (\<lambda>n. take n (drop j s)) (filter (tempo_token R s j) [2, 3])"

definition tempo_tokens :: "(string \<Rightarrow> nat \<Rightarrow> bool) \<Rightarrow> string \<Rightarrow> string list" where
  \<comment> \<open>all tokens of the stem, from left to right\<close>
  "tempo_tokens R s = concat (map (tokens_at R s) [0..<length s])"

definition last_tempo :: "(string \<Rightarrow> nat \<Rightarrow> bool) \<Rightarrow> string \<Rightarrow> nat option" where
  "last_tempo R s =
     (let vs = filter (\<lambda>b. 40 \<le> b \<and> b < 200) (map int_of_digits (tempo_tokens R s))
      in if vs = [] then None else Some (last vs))"

text \<open>The digit groups that \<open>bpm_digits\<close> can return at index \<open>j\<close>.\<close>

definition digit_groups :: "string \<Rightarrow> nat \<Rightarrow> string list" where
  "digit_groups s j =
     map (\<lambda>n. take n (drop j s))
       (filter (\<lambda>n. digits_at s j n \<and> right_delimited_nl s (j + n)) [2, 3])"

text \<open>Group 1 of the match of the tempo pattern at start position \<open>p\<close>, if any.\<close>

definition matches_at :: "string \<Rightarrow> nat \<Rightarrow> string list" where
  "matches_at s p = (case bpm_match_at s p of None \<Rightarrow> [] | Some (g, e) \<Rightarrow> [g])"

text \<open>No match of \<open>m\<close> starts strictly inside another match: resuming the scan at the
  end of a match loses no match.\<close>

definition skips :: "(string \<Rightarrow> nat \<Rightarrow> ('g \<times> nat) option) \<Rightarrow> string \<Rightarrow> bool" where
  "skips m s = (\<forall>p g e. m s p = Some (g, e) \<longrightarrow>
      p < e \<and> e \<le> length s \<and> (\<forall>q. p < q \<and> q < e \<longrightarrow> m s q = None))"

text \<open>
  The content of the buckets without the order of insertion: a plain list as the set
  of its paths, a pitch map as a function from pitch labels to sets of paths.
  \<open>expected cl S\<close> is the content that the files of the set \<open>S\<close> should leave, given
  the contribution \<open>cl r\<close> of each file \<open>r\<close>; \<open>astep_at\<close> is the effect of one more
  contribution on the bucket of its key.
\<close>

datatype abucket = AL "string set" | AM "string \<Rightarrow> string set option"

definition abs_bucket :: "bucket \<Rightarrow> abucket" where
  "abs_bucket b =
     (case b of PlainList l \<Rightarrow> AL (set l) | PitchMap d \<Rightarrow> AM (\<lambda>p. map_option set (map_of d p)))"

definition abs_buckets :: "buckets \<Rightarrow> string \<Rightarrow> abucket option" where
  "abs_buckets bs = (\<lambda>k. map_option abs_bucket (map_of bs k))"

definition key_of :: "contribution \<Rightarrow> string" where
  "key_of c = (case c of DrumsLoop k \<Rightarrow> k | GenericLoop k \<Rightarrow> k | Pitched k _ \<Rightarrow> k | Unpitched k \<Rightarrow> k)"

definition label_of :: "contribution \<Rightarrow> string" where
  "label_of c = (case c of Pitched _ p \<Rightarrow> p | _ \<Rightarrow> ''unpitched'')"

definition is_pitched :: "contribution \<Rightarrow> bool" where
  "is_pitched c = (case c of Pitched _ _ \<Rightarrow> True | _ \<Rightarrow> False)"

definition add_label :: "string \<Rightarrow> string \<Rightarrow> (string \<Rightarrow> string set option) \<Rightarrow> string \<Rightarrow> string set option" where
  "add_label p rel f = f(p \<mapsto> insert rel (case f p of None \<Rightarrow> {} | Some X \<Rightarrow> X))"

definition astep_at :: "contribution \<Rightarrow> string \<Rightarrow> abucket option \<Rightarrow> abucket option" where
  "astep_at c rel a =
     (case a of
        None \<Rightarrow> if is_pitched c then Some (AM (add_label (label_of c) rel (\<lambda>_. None)))
                 else Some (AL {rel})
      | Some (AL X) \<Rightarrow>
          if is_pitched c
          then Some (AM (add_label (label_of c) rel ((\<lambda>_. None)(''unpitched'' \<mapsto> X))))
          else Some (AL (insert rel X))
      | Some (AM f) \<Rightarrow> Some (AM (add_label (label_of c) rel f)))"

definition expected :: "(string \<Rightarrow> contribution) \<Rightarrow> string set \<Rightarrow> string \<Rightarrow> abucket option" where
  "expected cl S k =
     (let R = {r \<in> S. key_of (cl r) = k} in
      if R = {} then None
      else if \<exists>r\<in>R. is_pitched (cl r)
      then Some (AM (\<lambda>p. let L = {r \<in> R. label_of (cl r) = p} in if L = {} then None else Some L))
      else Some (AL R))"

definition dot_free :: "string \<Rightarrow> bool" where
  "dot_free s = (CHR ''.'' \<notin> set s)"

definition classify_path :: "string \<Rightarrow> string \<Rightarrow> contribution" where
  "classify_path prefix rel = classify prefix rel (path_stem rel)"

section \<open>Dictionary operations\<close>

lemma map_of_setdefault:
  "map_of (setdefault k d al) k' =
     (if k' = k then Some (case map_of al k of None \<Rightarrow> d | Some v \<Rightarrow> v) else map_of al k')"
  by (auto simp: setdefault_def AList.update_conv' split: option.splits)

lemma update_setdefault: "AList.update k v (setdefault k d al) = AList.update k v al"
  by (simp add: setdefault_def split: option.splits)

lemma add_under_eq:
  "add_under label rel d =
     Inr (AList.update label (append_new rel (case map_of d label of None \<Rightarrow> [] | Some l \<Rightarrow> l)) d)"
  by (simp add: add_under_def Let_def map_of_setdefault update_setdefault)

lemma add_to_list_eq:
  "add_to_list key rel bs =
     (case map_of bs key of
        None \<Rightarrow> Inr (AList.update key (PlainList [rel]) bs)
      | Some (PlainList l) \<Rightarrow> Inr (AList.update key (PlainList (append_new rel l)) bs)
      | Some (PitchMap m) \<Rightarrow> if rel \<in> fst ` set m then Inr bs else Inl AttributeError)"
proof (cases "map_of bs key")
  case None
  then show ?thesis
    by (simp add: add_to_list_def Let_def map_of_setdefault update_setdefault append_new_def)
next
  case (Some b)
  then have "setdefault key (PlainList []) bs = bs"
    by (simp add: setdefault_def)
  with Some show ?thesis
    by (cases b) (simp_all add: add_to_list_def Let_def)
qed

lemma in_append_new: "rel \<in> set (append_new rel l)"
  by (simp add: append_new_def)

lemma contribute_pitched:
  "\<exists>d l. contribute (Pitched keyname pitch) rel bs =
            Inr (AList.update keyname (PitchMap d) bs) \<and>
          map_of d pitch = Some l \<and> rel \<in> set l"
proof -
  let ?e = "ensure_map (case map_of bs keyname of None \<Rightarrow> PitchMap [] | Some b \<Rightarrow> b)"
  let ?l = "append_new rel (case map_of ?e pitch of None \<Rightarrow> [] | Some l \<Rightarrow> l)"
  let ?d = "AList.update pitch ?l ?e"
  have "contribute (Pitched keyname pitch) rel bs = Inr (AList.update keyname (PitchMap ?d) bs)"
    by (simp add: add_under_eq Let_def)
  moreover have "map_of ?d pitch = Some ?l"
    by (simp add: AList.update_conv')
  moreover have "rel \<in> set ?l"
    by (rule in_append_new)
  ultimately show ?thesis by blast
qed

section \<open>First success of a list of alternatives\<close>

lemma first_some_Cons_Some:
  "first_some (a # xs) = Some y \<longleftrightarrow> a = Some y \<or> (a = None \<and> first_some xs = Some y)"
  by (cases a) auto

lemma first_some_Cons_None:
  "first_some (a # xs) = None \<longleftrightarrow> a = None \<and> first_some xs = None"
  by (cases a) auto

section \<open>Invariants of the buckets\<close>

lemma set_update_subset: "set (AList.update k v al) \<subseteq> insert (k, v) (set al)"
  by (induction al) auto

lemma map_of_is_mem: "map_of al k = Some v \<Longrightarrow> (k, v) \<in> set al"
  by (rule map_of_SomeD)

lemma distinct_append_new: "distinct l \<Longrightarrow> distinct (append_new rel l)"
  by (simp add: append_new_def)

lemma in_updateD:
  "(k', v') \<in> set (AList.update k v al) \<Longrightarrow> (k' = k \<and> v' = v) \<or> (k', v') \<in> set al"
  using set_update_subset [of k v al] by auto

lemma all_update:
  "\<forall>(k, v) \<in> set al. P v \<Longrightarrow> P v' \<Longrightarrow> \<forall>(k, v) \<in> set (AList.update k' v' al). P v"
  by (auto dest: in_updateD)

lemma wf_buckets_update:
  "wf_buckets bs \<Longrightarrow> wf_bucket b \<Longrightarrow> wf_buckets (AList.update k b bs)"
  unfolding wf_buckets_def by (auto simp: AList.distinct_update dest: in_updateD)

lemma wf_buckets_lookup: "wf_buckets bs \<Longrightarrow> map_of bs k = Some b \<Longrightarrow> wf_bucket b"
  unfolding wf_buckets_def by (auto dest: map_of_SomeD)

lemma wf_pitch_map_add:
  assumes "wf_bucket (PitchMap d)"
  shows "wf_bucket (PitchMap (AList.update label
           (append_new rel (case map_of d label of None \<Rightarrow> [] | Some l \<Rightarrow> l)) d))"
proof -
  have "distinct (case map_of d label of None \<Rightarrow> [] | Some l \<Rightarrow> l)"
    using assms by (auto simp: wf_bucket_def split: option.splits dest: map_of_SomeD)
  then have "distinct (append_new rel (case map_of d label of None \<Rightarrow> [] | Some l \<Rightarrow> l))"
    by (rule distinct_append_new)
  with assms show ?thesis
    unfolding wf_bucket_def by (auto simp: AList.distinct_update dest: in_updateD)
qed

lemma wf_ensure_map:
  "wf_bucket b \<Longrightarrow> wf_bucket (PitchMap (ensure_map b))"
  by (cases b) (simp_all add: ensure_map_def wf_bucket_def)

lemma wf_add_to_list:
  assumes "wf_buckets bs" and "add_to_list key rel bs = Inr bs'"
  shows "wf_buckets bs'"
proof (cases "map_of bs key")
  case None
  with assms(2) have "bs' = AList.update key (PlainList [rel]) bs"
    by (simp add: add_to_list_eq)
  with assms(1) show ?thesis
    by (simp add: wf_buckets_update wf_bucket_def)
next
  case (Some b)
  show ?thesis
  proof (cases b)
    case (PlainList l)
    with Some assms(2) have eq: "bs' = AList.update key (PlainList (append_new rel l)) bs"
      by (simp add: add_to_list_eq)
    from wf_buckets_lookup [OF assms(1) Some] PlainList have "distinct l"
      by (simp add: wf_bucket_def)
    with assms(1) eq show ?thesis
      by (simp add: wf_buckets_update wf_bucket_def distinct_append_new)
  next
    case (PitchMap d)
    with Some assms show ?thesis
      by (simp add: add_to_list_eq split: if_splits)
  qed
qed

lemma wf_contribute:
  assumes "wf_buckets bs" and "contribute c rel bs = Inr bs'"
  shows "wf_buckets bs'"
proof (cases c)
  case (DrumsLoop key)
  with assms show ?thesis by (simp add: wf_add_to_list)
next
  case (GenericLoop key)
  with assms show ?thesis by (simp add: wf_add_to_list)
next
  case (Pitched key pitch)
  let ?b = "case map_of bs key of None \<Rightarrow> PitchMap [] | Some b \<Rightarrow> b"
  have "wf_bucket ?b"
    using assms(1) by (auto simp: wf_bucket_def split: option.splits dest: wf_buckets_lookup)
  then have "wf_bucket (PitchMap (ensure_map ?b))"
    by (rule wf_ensure_map)
  from wf_pitch_map_add [OF this] assms Pitched show ?thesis
    by (auto simp: add_under_eq Let_def wf_buckets_update)
next
  case (Unpitched key)
  show ?thesis
  proof (cases "map_of bs key")
    case None
    with assms Unpitched show ?thesis by (simp add: wf_add_to_list)
  next
    case (Some b)
    show ?thesis
    proof (cases b)
      case (PlainList l)
      with Some assms Unpitched show ?thesis by (simp add: wf_add_to_list)
    next
      case (PitchMap d)
      with Some assms(1) have "wf_bucket (PitchMap d)"
        by (auto dest: wf_buckets_lookup)
      from wf_pitch_map_add [OF this] assms Unpitched Some PitchMap show ?thesis
        by (auto simp: add_under_eq wf_buckets_update)
    qed
  qed
qed

lemma wf_process_all:
  "wf_buckets bs \<Longrightarrow> process_all prefix rels bs = Inr bs' \<Longrightarrow> wf_buckets bs'"
proof (induction rels arbitrary: bs)
  case Nil
  then show ?case by simp
next
  case (Cons rel rels)
  then show ?case
    by (auto simp: process_file_def split: sum.splits dest: wf_contribute)
qed

lemma distinct_map_insort_key:
  "distinct (map f (insort_key f x xs)) = (f x \<notin> f ` set xs \<and> distinct (map f xs))"
  by (induction xs) (auto simp: set_insort_key)

lemma distinct_map_sort_key: "distinct (map f (sort_key f xs)) = distinct (map f xs)"
  by (induction xs) (simp_all add: distinct_map_insort_key)

lemma wf_sorted_bucket: "wf_bucket b \<Longrightarrow> wf_entry (sorted_bucket b)"
proof (cases b)
  case (PlainList l)
  assume "wf_bucket b"
  with PlainList show ?thesis
    by (simp add: sorted_bucket_def wf_entry_def wf_bucket_def)
next
  case (PitchMap d)
  assume "wf_bucket b"
  with PitchMap have d: "distinct (map fst d)" "\<forall>(p, l) \<in> set d. distinct l"
    by (simp_all add: wf_bucket_def)
  have keys: "map fst (sort_map d) = map fst (sort_key fst d)"
    by (simp add: sort_map_def sort_items_def case_prod_unfold comp_def)
  have "sorted (map fst (sort_map d))"
    unfolding keys by (rule sorted_sort_key)
  moreover have "distinct (map fst (sort_map d))"
    unfolding keys using d(1) by (simp add: distinct_map_sort_key)
  moreover have "\<forall>(p, l) \<in> set (sort_map d). sorted l \<and> distinct l"
    using d(2) by (auto simp: sort_map_def sort_items_def)
  ultimately show ?thesis
    using PitchMap by (simp add: sorted_bucket_def wf_entry_def)
qed

lemma fold_update_wf:
  assumes "\<forall>(k, b) \<in> set bs. wf_bucket b"
    and "distinct (map fst m)" and "\<forall>(k, e) \<in> set m. wf_entry e"
    and "key \<in> fst ` set m"
  shows "distinct (map fst (fold (\<lambda>(k, v) m. AList.update k (sorted_bucket v) m) bs m)) \<and>
         (\<forall>(k, e) \<in> set (fold (\<lambda>(k, v) m. AList.update k (sorted_bucket v) m) bs m). wf_entry e) \<and>
         key \<in> fst ` set (fold (\<lambda>(k, v) m. AList.update k (sorted_bucket v) m) bs m)"
  using assms
proof (induction bs arbitrary: m)
  case Nil
  then show ?case by simp
next
  case (Cons kb bs)
  obtain k b where kb: "kb = (k, b)" by (cases kb)
  with Cons.prems(1) have wb: "wf_bucket b" and rest: "\<forall>(k, b) \<in> set bs. wf_bucket b"
    by auto
  have 1: "distinct (map fst (AList.update k (sorted_bucket b) m))"
    using Cons.prems(2) by (rule AList.distinct_update)
  have 2: "\<forall>(k, e) \<in> set (AList.update k (sorted_bucket b) m). wf_entry e"
    using Cons.prems(3) wf_sorted_bucket [OF wb] by (rule all_update)
  have 3: "key \<in> fst ` set (AList.update k (sorted_bucket b) m)"
    using Cons.prems(4) by (simp add: AList.dom_update)
  from Cons.IH [OF rest 1 2 3] kb show ?case by simp
qed

section \<open>Pitch labels\<close>

lemma str_of_nat_last: "str_of_nat n \<noteq> [] \<and> last (str_of_nat n) = digit_char (n mod 10)"
  by (subst (1 2) str_of_nat.simps) simp

lemma code_digit_char: "d < 10 \<Longrightarrow> code (digit_char d) = 48 + d"
  by (simp add: code_def digit_char_def)

lemma digit_char_not_d: "digit_char (n mod 10) \<noteq> CHR ''d''"
proof
  assume "digit_char (n mod 10) = CHR ''d''"
  then have "code (digit_char (n mod 10)) = code (CHR ''d'')" by simp
  then have "48 + n mod 10 = (100::nat)"
    by (simp add: code_digit_char) (simp add: code_def)
  then show False by arith
qed

lemma label_not_unpitched: "r @ str_of_nat n \<noteq> ''unpitched''"
proof
  assume "r @ str_of_nat n = ''unpitched''"
  then have "last (r @ str_of_nat n) = last ''unpitched''" by simp
  then show False
    using str_of_nat_last [of n] digit_char_not_d [of n] by simp
qed

lemma classify_pitched_label:
  "classify prefix rel stem = Pitched k p \<Longrightarrow> p \<noteq> ''unpitched''"
  by (auto simp: classify_def Let_def label_not_unpitched split: if_splits option.splits)

section \<open>Leftmost match\<close>

lemma search_from_none:
  "(\<And>p. i \<le> p \<Longrightarrow> p \<le> length s \<Longrightarrow> m s p = None) \<Longrightarrow> search_from m s i = None"
proof (induction m s i rule: search_from.induct)
  case (1 m s i)
  show ?case
  proof (cases "length s < i")
    case True
    then show ?thesis by (subst search_from.simps) simp
  next
    case False
    then have n: "m s i = None" using "1.prems" by simp
    have "search_from m s (Suc i) = None"
      using False n "1.prems" by (intro "1.IH") auto
    with False n show ?thesis by (subst search_from.simps) simp
  qed
qed

lemma search_from_first:
  "i \<le> p \<Longrightarrow> p \<le> length s \<Longrightarrow> m s p = Some g \<Longrightarrow>
   (\<And>j. i \<le> j \<Longrightarrow> j < p \<Longrightarrow> m s j = None) \<Longrightarrow> search_from m s i = Some g"
proof (induction m s i rule: search_from.induct)
  case (1 m s i)
  show ?case
  proof (cases "i = p")
    case True
    with "1.prems" show ?thesis by (subst search_from.simps) simp
  next
    case False
    with "1.prems" have lt: "i < p" and n: "m s i = None" by auto
    then have le: "\<not> length s < i" using "1.prems" by simp
    have "search_from m s (Suc i) = Some g"
      using le n lt "1.prems" by (intro "1.IH") auto
    with le n show ?thesis by (subst search_from.simps) simp
  qed
qed

lemma search_from_None_D:
  "search_from m s i = None \<Longrightarrow> i \<le> p \<Longrightarrow> p \<le> length s \<Longrightarrow> m s p = None"
proof (induction m s i rule: search_from.induct)
  case (1 m s i)
  from "1.prems" have le: "\<not> length s < i" by simp
  from "1.prems"(1) le have n: "m s i = None"
    by (subst (asm) search_from.simps) (simp split: option.splits)
  show ?case
  proof (cases "i = p")
    case True
    with n show ?thesis by simp
  next
    case False
    from "1.prems"(1) le n have "search_from m s (Suc i) = None"
      by (subst (asm) search_from.simps) simp
    with False "1.prems" le n show ?thesis
      by (intro "1.IH") auto
  qed
qed

lemma search_from_Some_D:
  "search_from m s i = Some g \<Longrightarrow>
     \<exists>p. i \<le> p \<and> p \<le> length s \<and> m s p = Some g \<and> (\<forall>j. i \<le> j \<and> j < p \<longrightarrow> m s j = None)"
proof (induction m s i rule: search_from.induct)
  case (1 m s i)
  from "1.prems" have le: "\<not> length s < i"
    by (subst (asm) search_from.simps) (simp split: if_splits)
  show ?case
  proof (cases "m s i")
    case None
    with "1.prems" le have "search_from m s (Suc i) = Some g"
      by (subst (asm) search_from.simps) simp
    from "1.IH" [OF le None this] obtain p where
      p: "Suc i \<le> p" "p \<le> length s" "m s p = Some g" "\<forall>j. Suc i \<le> j \<and> j < p \<longrightarrow> m s j = None"
      by blast
    have "\<forall>j. i \<le> j \<and> j < p \<longrightarrow> m s j = None"
    proof (intro allI impI)
      fix j assume "i \<le> j \<and> j < p"
      then show "m s j = None"
        using None p(4) by (cases "j = i") auto
    qed
    with p show ?thesis
      by (intro exI [of _ p]) auto
  next
    case (Some g')
    with "1.prems" le have "g' = g"
      by (subst (asm) search_from.simps) simp
    with Some le show ?thesis
      by (intro exI [of _ i]) auto
  qed
qed

section \<open>Lower case\<close>

lemma code_lower_char:
  "code (lower_char c) =
     (if is_upper c \<or> (192 \<le> code c \<and> code c \<le> 222 \<and> code c \<noteq> 215)
      then code c + 32 else code c)"
  by (auto simp: lower_char_def code_def is_upper_def)

lemma code_eq_iff: "code c = code d \<longleftrightarrow> c = d"
  by (simp add: code_def)

section \<open>Enharmonic normalisation (C3)\<close>

text \<open>
  C3 claims that \<open>normalize_note\<close> returns one of the twelve canonical labels for every
  input, and no label ending in \<^verbatim>\<open>#\<close> other than \<^verbatim>\<open>f#\<close>. The flat spelling
  \<^verbatim>\<open>Gb\<close>, which both key patterns accept, is returned as \<^verbatim>\<open>gb\<close>, which is not a
  canonical label; \<^verbatim>\<open>E#\<close> is returned as \<^verbatim>\<open>e#\<close>.
\<close>

theorem normalize_note_counterexample:
  "normalize_note ''Gb'' = ''gb'' \<and> ''gb'' \<notin> set canonical_labels \<and>
   normalize_note ''E#'' = ''e#'' \<and> endswith ''e#'' ''#'' \<and> ''e#'' \<noteq> ''f#''"
  by code_simp

text \<open>
  C3, amended: for an input whose lower-case form is one of the sixteen spellings of
  \<open>plain_spellings\<close>, \<open>normalize_note\<close> returns one of the twelve canonical labels,
  and the result ends in \<^verbatim>\<open>#\<close> only if it is \<^verbatim>\<open>f#\<close>; an input that does not end
  in \<^verbatim>\<open>#\<close> is returned in lower case and otherwise unchanged.
\<close>

theorem normalize_note_canonical:
  "(lc note \<in> set plain_spellings \<longrightarrow>
      normalize_note note \<in> set canonical_labels \<and>
      (endswith (normalize_note note) ''#'' \<longrightarrow> normalize_note note = ''f#'')) \<and>
   (\<not> endswith (lc note) ''#'' \<longrightarrow> normalize_note note = lc note)"
proof (intro conjI impI)
  assume "\<not> endswith (lc note) ''#''"
  then show "normalize_note note = lc note"
    by (simp add: normalize_note_def Let_def)
next
  assume a: "lc note \<in> set plain_spellings"
  then show "normalize_note note \<in> set canonical_labels"
    unfolding plain_spellings_def canonical_labels_def normalize_note_def Let_def
    by (auto simp: endswith_def SHARP2FLAT_def)
  show "endswith (normalize_note note) ''#'' \<Longrightarrow> normalize_note note = ''f#''"
    using a unfolding plain_spellings_def normalize_note_def Let_def
    by (auto simp: endswith_def SHARP2FLAT_def)
qed

text \<open>The amended C3 at \<^verbatim>\<open>C#\<close> (a table sharp) and \<^verbatim>\<open>Bb\<close> (a flat).\<close>

theorem normalize_note_canonical_witness:
  "lc ''C#'' \<in> set plain_spellings \<and> normalize_note ''C#'' = ''db'' \<and>
   \<not> endswith (lc ''Bb'') ''#'' \<and> normalize_note ''Bb'' = ''bb''"
proof -
  have 1: "lc ''C#'' \<in> set plain_spellings" by code_simp
  have 2: "\<not> endswith (lc ''Bb'') ''#''" by code_simp
  have 3: "normalize_note ''C#'' = ''db''" "lc ''Bb'' = ''bb''" by code_simp+
  from normalize_note_canonical [of "''C#''"] normalize_note_canonical [of "''Bb''"] 1 2 3
  show ?thesis by simp
qed

section \<open>Loop decision (C6)\<close>

text \<open>
  C6: a file goes through the loop branch if and only if some \<^verbatim>\<open>/\<close>-delimited segment
  of its relative path slugifies to \<^verbatim>\<open>loop\<close> or \<^verbatim>\<open>loops\<close>, or both a tempo and a key
  are extracted from its stem; otherwise it is filed as a one-shot.
\<close>

theorem loop_decision:
  "is_loop_contribution (classify prefix rel stem) \<longleftrightarrow>
     (\<exists>seg \<in> set (split_on CHR ''/'' rel). slug seg = ''loop'' \<or> slug seg = ''loops'') \<or>
     (get_bpm stem \<noteq> None \<and> get_key stem \<noteq> None)"
proof -
  have "is_loops_folder rel \<longleftrightarrow>
          (\<exists>seg \<in> set (split_on CHR ''/'' rel). slug seg = ''loop'' \<or> slug seg = ''loops'')"
    by (auto simp: is_loops_folder_def has_seg_def list_ex_iff)
  then show ?thesis
    by (auto simp: classify_def Let_def is_loop_contribution_def split: option.splits)
qed

text \<open>C6 at a file under a loop folder, at a file with tempo and key in its stem, and
  at a one-shot.\<close>

theorem loop_decision_witness:
  "is_loop_contribution (classify ''p'' ''loops/pad_cm.wav'' ''pad_cm'') \<and>
   is_loop_contribution (classify ''p'' ''Piano_120_cm.wav'' ''Piano_120_cm'') \<and>
   \<not> is_loop_contribution (classify ''p'' ''Custom/Snares/Snare_Hit.wav'' ''Snare_Hit'')"
proof -
  have 1: "\<exists>seg \<in> set (split_on CHR ''/'' ''loops/pad_cm.wav'').
             slug seg = ''loop'' \<or> slug seg = ''loops''"
    by code_simp
  have 2: "get_bpm ''Piano_120_cm'' \<noteq> None \<and> get_key ''Piano_120_cm'' \<noteq> None"
    by code_simp
  have 3: "\<not> (\<exists>seg \<in> set (split_on CHR ''/'' ''Custom/Snares/Snare_Hit.wav'').
                slug seg = ''loop'' \<or> slug seg = ''loops'')"
    by code_simp
  have 4: "get_key ''Snare_Hit'' = None"
    by code_simp
  from 1 2 3 4 show ?thesis
    unfolding loop_decision by simp
qed

section \<open>Loops with a key and no tempo (C9)\<close>

lemma classify_loop_cases:
  assumes "is_loop_contribution (classify prefix rel stem)"
  shows "(\<exists>key. classify prefix rel stem = DrumsLoop key) \<or>
         classify prefix rel stem =
           GenericLoop (generic_loop_key prefix (get_bpm stem) (get_key stem))"
proof (cases "is_loops_folder rel \<or> (get_bpm stem \<noteq> None \<and> get_key stem \<noteq> None)")
  case True
  then show ?thesis
    by (simp add: classify_def Let_def split: option.splits)
next
  case False
  then have "\<not> is_loop_contribution (classify prefix rel stem)"
    by (auto simp: classify_def Let_def is_loop_contribution_def split: option.splits)
  with assms show ?thesis by simp
qed

text \<open>
  C9: for a file that goes through the loop branch, is not filed by the drums-group
  branch, and whose stem yields a key, the bucket key is exactly \<^verbatim>\<open>{prefix}_loops\<close>
  when the stem yields no tempo: the key feature is not part of it. When the stem
  yields a tempo as well, the bucket key is \<^verbatim>\<open>{prefix}_{bpm}_{root}\<close>, with \<^verbatim>\<open>m\<close>
  appended for a minor key.
\<close>

theorem key_only_loop_bucket:
  assumes "is_loop_contribution (classify prefix rel stem)"
    and "get_key stem = Some k"
    and "\<forall>key. classify prefix rel stem \<noteq> DrumsLoop key"
  shows "(get_bpm stem = None \<longrightarrow>
            classify prefix rel stem = GenericLoop (prefix @ ''_loops'')) \<and>
         (\<forall>b. get_bpm stem = Some b \<longrightarrow>
            classify prefix rel stem =
              GenericLoop (prefix @ ''_'' @ str_of_nat b @ ''_'' @ root k @
                           (if minor k then ''m'' else [])))"
proof -
  from classify_loop_cases [OF assms(1)] assms(3)
  have "classify prefix rel stem =
          GenericLoop (generic_loop_key prefix (get_bpm stem) (get_key stem))"
    by blast
  then show ?thesis
    by (simp add: generic_loop_key_def assms(2))
qed

text \<open>C9 at \<^verbatim>\<open>loops/pad_cm.wav\<close>: key C minor, no tempo, bucket \<^verbatim>\<open>p_loops\<close>.\<close>

theorem key_only_loop_bucket_witness:
  "classify ''p'' ''loops/pad_cm.wav'' ''pad_cm'' = GenericLoop ''p_loops'' \<and>
   get_key ''pad_cm'' = Some \<lparr>root = ''c'', minor = True, oct = None\<rparr> \<and>
   get_bpm ''pad_cm'' = None"
proof -
  have c: "classify ''p'' ''loops/pad_cm.wav'' ''pad_cm'' = GenericLoop ''p_loops''"
    by code_simp
  have k: "get_key ''pad_cm'' = Some \<lparr>root = ''c'', minor = True, oct = None\<rparr>"
    by code_simp
  have b: "get_bpm ''pad_cm'' = None"
    by code_simp
  have 1: "is_loop_contribution (classify ''p'' ''loops/pad_cm.wav'' ''pad_cm'')"
    by (simp add: c is_loop_contribution_def)
  have 3: "\<forall>key. classify ''p'' ''loops/pad_cm.wav'' ''pad_cm'' \<noteq> DrumsLoop key"
    by (simp add: c)
  from key_only_loop_bucket [OF 1 k 3] b k show ?thesis by simp
qed

section \<open>The stem \<^verbatim>\<open>f40\<close> (C10)\<close>

text \<open>
  C10: for the stem \<^verbatim>\<open>f40\<close>, \<open>get_key\<close> returns root \<^verbatim>\<open>f\<close>, not minor, no octave,
  and the pattern with octave matches nowhere; \<open>get_bpm\<close> returns nothing. So a file
  with this stem outside every loop folder is a one-shot, and it is filed under the
  pitch label \<^verbatim>\<open>f4\<close> of the pitch map of its instrument bucket.
\<close>

theorem f40_bare_key:
  "get_key ''f40'' = Some \<lparr>root = ''f'', minor = False, oct = None\<rparr> \<and>
   search_from oct_match_at (lc ''f40'') 0 = None \<and>
   get_bpm ''f40'' = None \<and>
   (\<forall>prefix rel bs. path_stem rel = ''f40'' \<longrightarrow> \<not> is_loops_folder rel \<longrightarrow>
      (\<exists>bs' d l. process_file prefix rel bs = Inr bs' \<and>
         map_of bs' (prefix @ ''_'' @ guess_instrument rel) = Some (PitchMap d) \<and>
         map_of d ''f4'' = Some l \<and> rel \<in> set l))"
proof -
  have k: "get_key ''f40'' = Some \<lparr>root = ''f'', minor = False, oct = None\<rparr>"
    by code_simp
  have o: "search_from oct_match_at (lc ''f40'') 0 = None"
    by code_simp
  have b: "get_bpm ''f40'' = None"
    by code_simp
  have four: "str_of_nat 4 = ''4''"
    by code_simp
  have "\<exists>bs' d l. process_file prefix rel bs = Inr bs' \<and>
         map_of bs' (prefix @ ''_'' @ guess_instrument rel) = Some (PitchMap d) \<and>
         map_of d ''f4'' = Some l \<and> rel \<in> set l"
    if st: "path_stem rel = ''f40''" and nl: "\<not> is_loops_folder rel" for prefix rel bs
  proof -
    have c: "classify prefix rel ''f40'' = Pitched (prefix @ ''_'' @ guess_instrument rel) ''f4''"
      using nl by (simp add: classify_def Let_def k b four)
    obtain d l where
      "contribute (Pitched (prefix @ ''_'' @ guess_instrument rel) ''f4'') rel bs =
         Inr (AList.update (prefix @ ''_'' @ guess_instrument rel) (PitchMap d) bs)"
      "map_of d ''f4'' = Some l" "rel \<in> set l"
      using contribute_pitched by blast
    then show ?thesis
      by (simp add: process_file_def st c AList.update_conv')
  qed
  with k o b show ?thesis by blast
qed

text \<open>C10 at the file \<^verbatim>\<open>keys/f40.wav\<close>, the first file of a run with prefix \<^verbatim>\<open>p\<close>.\<close>

theorem f40_bare_key_witness:
  "path_stem ''keys/f40.wav'' = ''f40'' \<and> \<not> is_loops_folder ''keys/f40.wav'' \<and>
   process_file ''p'' ''keys/f40.wav'' [] =
     Inr [(''p_key'', PitchMap [(''f4'', [''keys/f40.wav''])])]"
proof -
  have 1: "path_stem ''keys/f40.wav'' = ''f40''" by code_simp
  have 2: "\<not> is_loops_folder ''keys/f40.wav''" by code_simp
  have 3: "process_file ''p'' ''keys/f40.wav'' [] =
             Inr [(''p_key'', PitchMap [(''f4'', [''keys/f40.wav''])])]"
    by code_simp
  from f40_bare_key 1 2 3 show ?thesis by simp
qed

section \<open>A loop filed into a pitch map (C2, C1)\<close>

text \<open>
  C2 claims that the classification of a file never raises, whatever buckets exist.
  The loop branches call \<^verbatim>\<open>append\<close> on \<^verbatim>\<open>buckets[key]\<close> without the
  \<^verbatim>\<open>isinstance(..., dict)\<close> test that the unpitched one-shot branch makes. Both files
  below pass the extension filter. The pitched one-shot \<^verbatim>\<open>woodblock/hit_c3.wav\<close>
  creates the bucket \<^verbatim>\<open>p_woodblock\<close> as a pitch map; the drum loop
  \<^verbatim>\<open>drums/loops/woodblock/groove.wav\<close> has the same bucket key, and filing it raises
  \<^verbatim>\<open>AttributeError\<close>.
\<close>

theorem loop_entry_raises_on_pitch_map:
  "walk_audio [''woodblock/hit_c3.wav'', ''drums/loops/woodblock/groove.wav''] =
     [''woodblock/hit_c3.wav'', ''drums/loops/woodblock/groove.wav''] \<and>
   process_file ''p'' ''woodblock/hit_c3.wav'' [] =
     Inr [(''p_woodblock'', PitchMap [(''c3'', [''woodblock/hit_c3.wav''])])] \<and>
   process_file ''p'' ''drums/loops/woodblock/groove.wav''
     [(''p_woodblock'', PitchMap [(''c3'', [''woodblock/hit_c3.wav''])])] = Inl AttributeError"
  by code_simp

text \<open>
  C1 claims that the order in which the files are processed does not change the
  output. For the same two files, the run that meets the loop first prints a manifest
  (the loop is moved under \<^verbatim>\<open>unpitched\<close> when the one-shot promotes the bucket), and
  the run that meets the one-shot first ends with \<^verbatim>\<open>AttributeError\<close>.
\<close>

theorem traversal_order_changes_outcome:
  "main ''p'' ''base'' [''drums/loops/woodblock/groove.wav'', ''woodblock/hit_c3.wav''] =
     Inr [(''_base'', Base ''base''),
          (''p_woodblock'',
           Pitches [(''c3'', [''woodblock/hit_c3.wav'']),
                    (''unpitched'', [''drums/loops/woodblock/groove.wav''])])] \<and>
   main ''p'' ''base'' [''woodblock/hit_c3.wav'', ''drums/loops/woodblock/groove.wav''] =
     Inl AttributeError"
  by code_simp

section \<open>Runs that complete agree\<close>

text \<open>
  Apart from the exception above, the order of traversal is not observable: two runs
  over the same set of files that both complete print the same manifest. The buckets
  after a run that completes hold exactly \<open>expected\<close> of the set of processed files
  (a path that passes the extension filter contains a dot, a pitch label does not, so
  a path is never mistaken for a label), and the assembled manifest depends on that
  content only.
\<close>

lemma assoc_rebuild:
  "distinct (map fst xs) \<Longrightarrow> map (\<lambda>x. (fst x, the (map_of xs (fst x)))) xs = xs"
proof (induction xs)
  case Nil
  then show ?case by simp
next
  case (Cons x xs)
  from Cons.prems have nk: "fst x \<notin> fst ` set xs" and d: "distinct (map fst xs)" by auto
  have "map (\<lambda>y. (fst y, the (map_of (x # xs) (fst y)))) xs =
        map (\<lambda>y. (fst y, the (map_of xs (fst y)))) xs"
  proof (rule map_cong [OF refl])
    fix y assume "y \<in> set xs"
    then have "fst y \<in> fst ` set xs" by (rule imageI)
    with nk have "fst y \<noteq> fst x" by metis
    then show "(fst y, the (map_of (x # xs) (fst y))) = (fst y, the (map_of xs (fst y)))"
      by simp
  qed
  with Cons.IH [OF d] show ?case by simp
qed

lemma sorted_assoc_unique:
  assumes "sorted (map fst xs)" "distinct (map fst xs)"
    and "sorted (map fst ys)" "distinct (map fst ys)"
    and "map_of xs = map_of ys"
  shows "xs = ys"
proof -
  from assms(2,4,5) have "set xs = set ys"
    by (simp add: map_of_inject_set)
  then have "set (map fst xs) = set (map fst ys)" by simp
  with assms(1-4) have keys: "map fst xs = map fst ys"
    by (intro sorted_distinct_set_unique)
  have "xs = map (\<lambda>k. (k, the (map_of xs k))) (map fst xs)"
    using assoc_rebuild [OF assms(2)] by (simp add: comp_def)
  also have "\<dots> = map (\<lambda>k. (k, the (map_of ys k))) (map fst ys)"
    unfolding keys assms(5) ..
  also have "\<dots> = ys"
    using assoc_rebuild [OF assms(4)] by (simp add: comp_def)
  finally show ?thesis .
qed

lemma map_of_sort_key:
  "distinct (map fst xs) \<Longrightarrow> map_of (sort_key fst xs) = map_of xs"
  by (subst map_of_inject_set) (simp_all add: distinct_map_sort_key)

lemma sort_set_unique:
  "distinct l \<Longrightarrow> distinct l' \<Longrightarrow> set l = set l' \<Longrightarrow> sort l = sort l'"
  by (intro sorted_distinct_set_unique) simp_all

lemma map_of_sort_map:
  "distinct (map fst d) \<Longrightarrow> map_of (sort_map d) = map_option sort \<circ> map_of d"
  by (simp add: sort_map_def sort_items_def map_of_map map_of_sort_key)

lemma keys_sort_map: "map fst (sort_map d) = map fst (sort_key fst d)"
  by (simp add: sort_map_def sort_items_def case_prod_unfold comp_def)

lemma sort_map_unique:
  assumes "wf_bucket (PitchMap d)" "wf_bucket (PitchMap d')"
    and "\<And>p. map_option set (map_of d p) = map_option set (map_of d' p)"
  shows "sort_map d = sort_map d'"
proof (rule sorted_assoc_unique)
  from assms(1,2) have dd: "distinct (map fst d)" "distinct (map fst d')"
    by (simp_all add: wf_bucket_def)
  show "sorted (map fst (sort_map d))" "sorted (map fst (sort_map d'))"
    unfolding keys_sort_map by (rule sorted_sort_key)+
  show "distinct (map fst (sort_map d))" "distinct (map fst (sort_map d'))"
    unfolding keys_sort_map using dd by (simp_all add: distinct_map_sort_key)
  show "map_of (sort_map d) = map_of (sort_map d')"
  proof
    fix p
    have "map_option sort (map_of d p) = map_option sort (map_of d' p)"
    proof (cases "map_of d p")
      case None
      with assms(3) [of p] show ?thesis by (cases "map_of d' p") auto
    next
      case (Some l)
      with assms(3) [of p] obtain l' where l': "map_of d' p = Some l'" "set l = set l'"
        by (cases "map_of d' p") auto
      from Some assms(1) have "distinct l"
        by (auto simp: wf_bucket_def dest: map_of_SomeD)
      moreover from l' assms(2) have "distinct l'"
        by (auto simp: wf_bucket_def dest: map_of_SomeD)
      ultimately have "sort l = sort l'"
        using l'(2) by (rule sort_set_unique)
      then show ?thesis
        using Some l' by simp
    qed
    then show "map_of (sort_map d) p = map_of (sort_map d') p"
      using dd by (simp add: map_of_sort_map)
  qed
qed

lemma sorted_bucket_unique:
  assumes "wf_bucket b" "wf_bucket b'" "abs_bucket b = abs_bucket b'"
  shows "sorted_bucket b = sorted_bucket b'"
proof (cases b)
  case (PlainList l)
  with assms(3) obtain l' where b': "b' = PlainList l'" "set l = set l'"
    by (cases b') (auto simp: abs_bucket_def)
  with PlainList assms(1,2) have "sort l = sort l'"
    by (intro sort_set_unique) (simp_all add: wf_bucket_def)
  with PlainList b' show ?thesis
    by (simp add: sorted_bucket_def)
next
  case (PitchMap d)
  with assms(3) obtain d' where b': "b' = PitchMap d'"
    and eq: "(\<lambda>p. map_option set (map_of d p)) = (\<lambda>p. map_option set (map_of d' p))"
    by (cases b') (auto simp: abs_bucket_def)
  from eq have "\<And>p. map_option set (map_of d p) = map_option set (map_of d' p)"
    by (rule fun_cong)
  with PitchMap b' assms(1,2) have "sort_map d = sort_map d'"
    by (intro sort_map_unique) simp_all
  with PitchMap b' show ?thesis
    by (simp add: sorted_bucket_def)
qed

lemma map_of_fold_update:
  "distinct (map fst bs) \<Longrightarrow>
   map_of (fold (\<lambda>(k, v) m. AList.update k (g v) m) bs m) k =
     (case map_of bs k of Some v \<Rightarrow> Some (g v) | None \<Rightarrow> map_of m k)"
proof (induction bs arbitrary: m)
  case Nil
  then show ?case by simp
next
  case (Cons kv bs)
  obtain k' v' where kv: "kv = (k', v')" by (cases kv)
  from Cons.prems kv have d: "distinct (map fst bs)" and nk: "k' \<notin> fst ` set bs" by auto
  from nk have "map_of bs k' = None"
    by (simp add: map_of_eq_None_iff)
  with Cons.IH [OF d, of "AList.update k' (g v') m"] kv show ?case
    by (auto simp: AList.update_conv' split: option.splits)
qed

lemma assemble_unique:
  assumes "wf_buckets bs" "wf_buckets bs'" "abs_buckets bs = abs_buckets bs'"
  shows "assemble base bs = assemble base bs'"
proof -
  let ?F = "\<lambda>bs. fold (\<lambda>(k, v) m. AList.update k (sorted_bucket v) m) bs [(''_base'', Base base)]"
  have wfF: "distinct (map fst (?F bs))" if "wf_buckets bs" for bs
    using fold_update_wf [of bs "[(''_base'', Base base)]" "''_base''"] that
    by (simp add: wf_buckets_def wf_entry_def)
  have mo: "map_of (?F bs) k = map_of (?F bs') k" for k
  proof -
    from assms(3) have a: "map_option abs_bucket (map_of bs k) = map_option abs_bucket (map_of bs' k)"
      unfolding abs_buckets_def by (rule fun_cong)
    show ?thesis
    proof (cases "map_of bs k")
      case None
      with a have "map_of bs' k = None" by (cases "map_of bs' k") auto
      with None assms(1,2) show ?thesis
        by (simp add: map_of_fold_update wf_buckets_def)
    next
      case (Some b)
      with a obtain b' where b': "map_of bs' k = Some b'" "abs_bucket b = abs_bucket b'"
        by (cases "map_of bs' k") auto
      from Some b' assms(1,2) have "wf_bucket b" "wf_bucket b'"
        by (auto dest: wf_buckets_lookup)
      with b' have "sorted_bucket b = sorted_bucket b'"
        by (intro sorted_bucket_unique)
      with Some b' assms(1,2) show ?thesis
        by (simp add: map_of_fold_update wf_buckets_def)
    qed
  qed
  show ?thesis
    unfolding assemble_def sort_items_def
  proof (rule sorted_assoc_unique)
    show "sorted (map fst (sort_key fst (?F bs)))" "sorted (map fst (sort_key fst (?F bs')))"
      by (rule sorted_sort_key)+
    show "distinct (map fst (sort_key fst (?F bs)))" "distinct (map fst (sort_key fst (?F bs')))"
      using wfF assms(1,2) by (simp_all add: distinct_map_sort_key)
    show "map_of (sort_key fst (?F bs)) = map_of (sort_key fst (?F bs'))"
      using wfF assms(1,2) mo by (simp add: map_of_sort_key fun_eq_iff)
  qed
qed

lemma set_append_new [simp]: "set (append_new rel l) = insert rel (set l)"
  by (auto simp: append_new_def)

lemma abs_update:
  "abs_buckets (AList.update key b bs) k =
     (if k = key then Some (abs_bucket b) else abs_buckets bs k)"
  by (simp add: abs_buckets_def AList.update_conv')

lemma abs_add_label:
  "(\<lambda>q. map_option set (map_of (AList.update p
       (append_new rel (case map_of d p of None \<Rightarrow> [] | Some l \<Rightarrow> l)) d) q)) =
   add_label p rel (\<lambda>q. map_option set (map_of d q))"
  by (auto simp: add_label_def AList.update_conv' fun_eq_iff split: option.splits)

lemma abs_add_to_list:
  assumes "add_to_list key rel bs = Inr bs'"
    and "\<forall>d. map_of bs key = Some (PitchMap d) \<longrightarrow> rel \<notin> fst ` set d"
    and "\<not> is_pitched c" and "label_of c = ''unpitched''" and "key_of c = key"
  shows "abs_buckets bs' k =
           (if key_of c = k then astep_at c rel (abs_buckets bs k) else abs_buckets bs k)"
proof (cases "map_of bs key")
  case None
  with assms(1) have "bs' = AList.update key (PlainList [rel]) bs"
    by (simp add: add_to_list_eq)
  moreover from None have "abs_buckets bs key = None"
    by (simp add: abs_buckets_def)
  ultimately show ?thesis
    using assms(3,5) by (auto simp: abs_update astep_at_def abs_bucket_def)
next
  case (Some b)
  show ?thesis
  proof (cases b)
    case (PlainList l)
    with Some assms(1) have "bs' = AList.update key (PlainList (append_new rel l)) bs"
      by (simp add: add_to_list_eq)
    moreover from Some PlainList have "abs_buckets bs key = Some (AL (set l))"
      by (simp add: abs_buckets_def abs_bucket_def)
    ultimately show ?thesis
      using assms(3,5) by (auto simp: abs_update astep_at_def abs_bucket_def)
  next
    case (PitchMap d)
    with Some assms(1,2) show ?thesis
      by (simp add: add_to_list_eq)
  qed
qed

lemma ensure_map_simps:
  "ensure_map (PlainList l) = [(''unpitched'', l)]" "ensure_map (PitchMap d) = d"
  by (cases l) (simp_all add: ensure_map_def)

lemma abs_contribute:
  assumes "contribute c rel bs = Inr bs'"
    and "\<forall>d. map_of bs (key_of c) = Some (PitchMap d) \<longrightarrow> rel \<notin> fst ` set d"
    and "is_pitched c \<longleftrightarrow> label_of c \<noteq> ''unpitched''"
  shows "abs_buckets bs' k =
           (if key_of c = k then astep_at c rel (abs_buckets bs k) else abs_buckets bs k)"
proof (cases c)
  case (DrumsLoop key)
  with assms show ?thesis
    by (intro abs_add_to_list [where key = key]) (simp_all add: key_of_def is_pitched_def label_of_def)
next
  case (GenericLoop key)
  with assms show ?thesis
    by (intro abs_add_to_list [where key = key]) (simp_all add: key_of_def is_pitched_def label_of_def)
next
  case (Pitched key p)
  let ?e = "ensure_map (case map_of bs key of None \<Rightarrow> PitchMap [] | Some b \<Rightarrow> b)"
  let ?d = "AList.update p (append_new rel (case map_of ?e p of None \<Rightarrow> [] | Some l \<Rightarrow> l)) ?e"
  from assms(1) Pitched have bs': "bs' = AList.update key (PitchMap ?d) bs"
    by (simp add: add_under_eq Let_def)
  have ab: "abs_bucket (PitchMap ?d) = AM (add_label p rel (\<lambda>q. map_option set (map_of ?e q)))"
    using abs_add_label [of p rel ?e] by (simp add: abs_bucket_def)
  from assms(3) Pitched have p: "p \<noteq> ''unpitched''"
    by (simp add: is_pitched_def label_of_def)
  have "Some (AM (add_label p rel (\<lambda>q. map_option set (map_of ?e q)))) =
        astep_at c rel (abs_buckets bs key)"
  proof (cases "map_of bs key")
    case None
    then show ?thesis
      using Pitched
      by (simp add: astep_at_def abs_buckets_def is_pitched_def label_of_def ensure_map_simps)
  next
    case (Some b)
    show ?thesis
    proof (cases b)
      case (PlainList l)
      have "(\<lambda>q. map_option set (map_of [(''unpitched'', l')] q)) =
            (\<lambda>_. None)(''unpitched'' \<mapsto> set l')" for l' :: "string list"
        by (auto simp: fun_eq_iff)
      with Some PlainList Pitched show ?thesis
        by (simp add: astep_at_def abs_buckets_def abs_bucket_def is_pitched_def label_of_def
            ensure_map_simps)
    next
      case (PitchMap d)
      with Some Pitched show ?thesis
        by (simp add: astep_at_def abs_buckets_def abs_bucket_def is_pitched_def label_of_def
            ensure_map_simps)
    qed
  qed
  with bs' ab Pitched show ?thesis
    by (auto simp: abs_update key_of_def)
next
  case (Unpitched key)
  show ?thesis
  proof (cases "\<exists>d. map_of bs key = Some (PitchMap d)")
    case True
    then obtain d where d: "map_of bs key = Some (PitchMap d)" by blast
    let ?d = "AList.update ''unpitched''
        (append_new rel (case map_of d ''unpitched'' of None \<Rightarrow> [] | Some l \<Rightarrow> l)) d"
    from assms(1) Unpitched d have bs': "bs' = AList.update key (PitchMap ?d) bs"
      by (simp add: add_under_eq)
    have ab: "abs_bucket (PitchMap ?d) =
        AM (add_label ''unpitched'' rel (\<lambda>q. map_option set (map_of d q)))"
      using abs_add_label [of "''unpitched''" rel d] by (simp add: abs_bucket_def)
    moreover from d have "abs_buckets bs key = Some (AM (\<lambda>q. map_option set (map_of d q)))"
      by (simp add: abs_buckets_def abs_bucket_def)
    ultimately show ?thesis
      using bs' Unpitched by (auto simp: abs_update key_of_def astep_at_def label_of_def)
  next
    case False
    with assms(1) Unpitched have "add_to_list key rel bs = Inr bs'"
      by (auto split: option.splits bucket.splits)
    with assms Unpitched show ?thesis
      by (intro abs_add_to_list [where key = key])
        (simp_all add: key_of_def is_pitched_def label_of_def)
  qed
qed

lemma expected_insert_other:
  "key_of (cl rel) \<noteq> k \<Longrightarrow> expected cl (insert rel S) k = expected cl S k"
proof -
  assume "key_of (cl rel) \<noteq> k"
  then have "{r \<in> insert rel S. key_of (cl r) = k} = {r \<in> S. key_of (cl r) = k}"
    by auto
  then show ?thesis
    by (simp add: expected_def)
qed

lemma expected_insert_same:
  assumes lab: "\<And>r. is_pitched (cl r) \<longleftrightarrow> label_of (cl r) \<noteq> ''unpitched''"
    and k: "key_of (cl rel) = k"
  shows "expected cl (insert rel S) k = astep_at (cl rel) rel (expected cl S k)"
proof -
  let ?R = "{r \<in> S. key_of (cl r) = k}"
  let ?L = "\<lambda>R p. {r \<in> R. label_of (cl r) = p}"
  let ?p = "label_of (cl rel)"
  from k have R': "{r \<in> insert rel S. key_of (cl r) = k} = insert rel ?R"
    by auto
  have L': "?L (insert rel ?R) q = (if q = ?p then insert rel (?L ?R q) else ?L ?R q)" for q
    by auto
  have new: "expected cl (insert rel S) k =
      (if is_pitched (cl rel) \<or> (\<exists>r\<in>?R. is_pitched (cl r))
       then Some (AM (\<lambda>q. if q = ?p then Some (insert rel (?L ?R q))
                           else if ?L ?R q = {} then None else Some (?L ?R q)))
       else Some (AL (insert rel ?R)))"
    unfolding expected_def R' Let_def L' by (auto simp: fun_eq_iff)
  show ?thesis
  proof (cases "?R = {}")
    case True
    then have old: "expected cl S k = None"
      by (simp add: expected_def)
    from True have "?L ?R q = {}" for q by auto
    with True show ?thesis
      unfolding new old by (auto simp: astep_at_def add_label_def fun_eq_iff)
  next
    case False
    show ?thesis
    proof (cases "\<exists>r\<in>?R. is_pitched (cl r)")
      case True
      with False have old: "expected cl S k =
          Some (AM (\<lambda>p. if ?L ?R p = {} then None else Some (?L ?R p)))"
        unfolding expected_def Let_def by (simp only: if_False if_True)
      from True show ?thesis
        unfolding new old by (auto simp: astep_at_def add_label_def fun_eq_iff)
    next
      case np: False
      with False have old: "expected cl S k = Some (AL ?R)"
        by (simp add: expected_def Let_def)
      from np lab have all: "\<And>r. r \<in> ?R \<Longrightarrow> label_of (cl r) = ''unpitched''"
        by blast
      then have LR: "?L ?R q = (if q = ''unpitched'' then ?R else {})" for q
        by auto
      show ?thesis
      proof (cases "is_pitched (cl rel)")
        case True
        with lab have "?p \<noteq> ''unpitched''" by blast
        with True False show ?thesis
          unfolding new old LR by (auto simp: astep_at_def add_label_def fun_eq_iff)
      next
        case False
        with np show ?thesis
          unfolding new old by (simp add: astep_at_def)
      qed
    qed
  qed
qed

lemma lower_char_dot: "lower_char c = CHR ''.'' \<longleftrightarrow> c = CHR ''.''"
proof -
  have d: "code CHR ''.'' = 46" by (simp add: code_def)
  have "code (lower_char c) = 46 \<longleftrightarrow> code c = 46"
    by (auto simp: code_lower_char is_upper_def)
  then show ?thesis
    using d by (metis code_eq_iff)
qed

lemma dot_free_lc: "dot_free (lc s) = dot_free s"
proof -
  have "CHR ''.'' \<in> lower_char ` set s \<longleftrightarrow> CHR ''.'' \<in> set s"
    by (metis (no_types, lifting) image_iff lower_char_dot)
  then show ?thesis
    by (simp add: dot_free_def lc_def)
qed

lemma dot_free_normalize_note: "dot_free n \<Longrightarrow> dot_free (normalize_note n)"
proof -
  assume n: "dot_free n"
  have "dot_free v" if "map_of SHARP2FLAT k = Some v" for k v
    using that by (auto simp: SHARP2FLAT_def dot_free_def split: if_splits)
  with n show ?thesis
    by (auto simp: normalize_note_def Let_def dot_free_lc split: option.splits)
qed

lemma note_letter_not_dot: "is_note_letter c \<Longrightarrow> c \<noteq> CHR ''.''"
  by (auto simp: is_note_letter_def code_def)

lemma accidental_not_dot: "is_accidental c \<Longrightarrow> c \<noteq> CHR ''.''"
  by (auto simp: is_accidental_def)

lemma oct_body_dot_free:
  assumes "oct_body xs = Some (l, a, d)"
  shows "dot_free (l @ a)"
  using assms
  by (auto simp: oct_body_def oct_digit_def first_some_Cons_Some dot_free_def
      dest: note_letter_not_dot accidental_not_dot split: list.splits if_splits)

lemma oct_match_at_dot_free:
  assumes "oct_match_at s i = Some (l, a, d)"
  shows "dot_free (l @ a)"
proof -
  from assms have "\<exists>xs. oct_body xs = Some (l, a, d)"
    by (auto simp: oct_match_at_def first_some_Cons_Some split: list.splits if_splits)
  then show ?thesis by (blast dest: oct_body_dot_free)
qed

lemma tok_body_dot_free:
  assumes "tok_body xs = Some (l, a, q)"
  shows "dot_free (l @ a)"
  using assms
  by (auto simp: tok_body_def tok_quals_def tok_qual_def first_some_Cons_Some dot_free_def
      dest: note_letter_not_dot accidental_not_dot split: list.splits if_splits)

lemma tok_match_at_dot_free:
  assumes "tok_match_at s i = Some (l, a, q)"
  shows "dot_free (l @ a)"
proof -
  from assms have "\<exists>xs. tok_body xs = Some (l, a, q)"
    by (auto simp: tok_match_at_def first_some_Cons_Some split: list.splits if_splits)
  then show ?thesis by (blast dest: tok_body_dot_free)
qed

lemma get_key_dot_free:
  assumes "get_key stem = Some k"
  shows "dot_free (root k)"
proof (cases "search_from oct_match_at (lc stem) 0")
  case None
  with assms obtain l a q where t: "search_from tok_match_at (lc stem) 0 = Some (l, a, q)"
    and r: "root k = normalize_note (l @ a)"
    by (auto simp: get_key_def Let_def split: option.splits)
  from search_from_Some_D [OF t] obtain p where "tok_match_at (lc stem) p = Some (l, a, q)"
    by blast
  then have "dot_free (l @ a)" by (rule tok_match_at_dot_free)
  with r show ?thesis by (simp add: dot_free_normalize_note)
next
  case (Some g)
  obtain l a d where g: "g = (l, a, d)" by (cases g)
  with Some assms have r: "root k = normalize_note (l @ a)"
    by (auto simp: get_key_def Let_def)
  from search_from_Some_D [OF Some [unfolded g]] obtain p where
    "oct_match_at (lc stem) p = Some (l, a, d)"
    by blast
  then have "dot_free (l @ a)" by (rule oct_match_at_dot_free)
  with r show ?thesis by (simp add: dot_free_normalize_note)
qed

lemma digit_char_not_dot: "d < 10 \<Longrightarrow> digit_char d \<noteq> CHR ''.''"
proof
  assume "d < 10" and "digit_char d = CHR ''.''"
  then have "code (digit_char d) = code CHR ''.''" by simp
  with \<open>d < 10\<close> show False
    by (simp add: code_digit_char) (simp add: code_def)
qed

lemma dot_free_str_of_nat: "dot_free (str_of_nat n)"
proof (induction n rule: str_of_nat.induct)
  case (1 n)
  show ?case
  proof (cases "n < 10")
    case True
    then show ?thesis
      using digit_char_not_dot [of n]
      by (subst str_of_nat.simps) (auto simp: dot_free_def)
  next
    case False
    with "1.IH" have "dot_free (str_of_nat (n div 10))" by simp
    moreover have "digit_char (n mod 10) \<noteq> CHR ''.''"
      by (rule digit_char_not_dot) simp
    ultimately show ?thesis
      using False by (subst str_of_nat.simps) (auto simp: dot_free_def)
  qed
qed

lemma dot_free_label: "dot_free (label_of (classify prefix rel stem))"
proof (cases "classify prefix rel stem")
  case (Pitched k p)
  then obtain ki n where "get_key stem = Some ki" and p: "p = root ki @ str_of_nat n"
    by (auto simp: classify_def Let_def split: if_splits option.splits)
  from get_key_dot_free [OF this(1)] dot_free_str_of_nat [of n] p Pitched show ?thesis
    by (simp add: label_of_def dot_free_def)
qed (simp_all add: label_of_def dot_free_def)

lemma pitched_iff_label:
  "is_pitched (classify prefix rel stem) \<longleftrightarrow> label_of (classify prefix rel stem) \<noteq> ''unpitched''"
  by (cases "classify prefix rel stem")
    (auto simp: is_pitched_def label_of_def dest: classify_pitched_label)

lemma split_on_chars: "w \<in> set (split_on sep s) \<Longrightarrow> set w \<subseteq> set s"
proof (induction s arbitrary: w)
  case Nil
  then show ?case by simp
next
  case (Cons c cs)
  show ?case
  proof (cases "c = sep")
    case True
    with Cons.prems have "w = [] \<or> w \<in> set (split_on sep cs)" by simp
    with Cons.IH [of w] show ?thesis by auto
  next
    case False
    show ?thesis
    proof (cases "split_on sep cs")
      case Nil
      with False Cons.prems show ?thesis by simp
    next
      case (Cons a list)
      with False Cons.prems have "w = c # a \<or> w \<in> set list" by simp
      moreover from Cons Cons.IH [of a] have "set a \<subseteq> set cs" by simp
      moreover have "set w \<subseteq> set cs" if "w \<in> set list"
        using that Cons Cons.IH [of w] by simp
      ultimately show ?thesis by auto
    qed
  qed
qed

lemma split_on_nonempty: "split_on sep s \<noteq> []"
  by (induction s) (auto split: list.splits)

lemma audio_path_has_dot:
  assumes "rel \<in> set (walk_audio paths)"
  shows "\<not> dot_free rel"
proof -
  from assms have "lc (path_suffix rel) \<in> set AUDIO_EXTS"
    by (simp add: walk_audio_def)
  then have "path_suffix rel \<noteq> []"
    by (auto simp: AUDIO_EXTS_def lc_def)
  then have "CHR ''.'' \<in> set (path_name rel)"
    by (auto simp: path_suffix_def has_suffix_def Let_def split: if_splits)
  moreover have "path_name rel \<in> set (split_on CHR ''/'' rel)"
    unfolding path_name_def using split_on_nonempty by (intro last_in_set)
  ultimately show ?thesis
    using split_on_chars [of "path_name rel" "CHR ''/''" rel] by (auto simp: dot_free_def)
qed

lemma expected_no_label:
  assumes "expected cl S k = Some (AM f)" and "\<And>r. r \<in> S \<Longrightarrow> label_of (cl r) \<noteq> q"
  shows "f q = None"
proof -
  from assms(2) have "{r \<in> {r \<in> S. key_of (cl r) = k}. label_of (cl r) = q} = {}"
    by auto
  with assms(1) show ?thesis
    by (auto simp: expected_def Let_def split: if_splits)
qed

lemma process_file_repr:
  assumes abs: "abs_buckets bs = expected (classify_path prefix) S"
    and run: "process_file prefix rel bs = Inr bs'"
    and dot: "\<not> dot_free rel"
  shows "abs_buckets bs' = expected (classify_path prefix) (insert rel S)"
proof (rule ext)
  fix k
  let ?cl = "classify_path prefix"
  let ?c = "?cl rel"
  have lab: "is_pitched (?cl r) \<longleftrightarrow> label_of (?cl r) \<noteq> ''unpitched''" for r
    unfolding classify_path_def by (rule pitched_iff_label)
  have side: "\<forall>d. map_of bs (key_of ?c) = Some (PitchMap d) \<longrightarrow> rel \<notin> fst ` set d"
  proof (intro allI impI)
    fix d assume d: "map_of bs (key_of ?c) = Some (PitchMap d)"
    then have "abs_buckets bs (key_of ?c) = Some (AM (\<lambda>q. map_option set (map_of d q)))"
      by (simp add: abs_buckets_def abs_bucket_def)
    with abs have e: "expected ?cl S (key_of ?c) = Some (AM (\<lambda>q. map_option set (map_of d q)))"
      by simp
    have "label_of (?cl r) \<noteq> rel" for r
      using dot dot_free_label [of prefix r "path_stem r"] unfolding classify_path_def by auto
    with expected_no_label [OF e, of rel] have "map_option set (map_of d rel) = None"
      by simp
    then show "rel \<notin> fst ` set d"
      by (simp add: map_of_eq_None_iff)
  qed
  from run have c: "contribute ?c rel bs = Inr bs'"
    by (simp add: process_file_def classify_path_def)
  show "abs_buckets bs' k = expected ?cl (insert rel S) k"
  proof (cases "key_of ?c = k")
    case True
    from abs_contribute [OF c side lab, of k] True
    have "abs_buckets bs' k = astep_at ?c rel (abs_buckets bs k)" by simp
    also have "\<dots> = astep_at ?c rel (expected ?cl S k)" by (simp add: abs)
    also have "\<dots> = expected ?cl (insert rel S) k"
      using expected_insert_same [of ?cl rel k S] lab True by simp
    finally show ?thesis .
  next
    case False
    from abs_contribute [OF c side lab, of k] False
    have "abs_buckets bs' k = abs_buckets bs k" by simp
    with False show ?thesis
      by (simp add: abs expected_insert_other)
  qed
qed

lemma process_all_repr:
  "abs_buckets bs = expected (classify_path prefix) S \<Longrightarrow>
   process_all prefix rels bs = Inr bs' \<Longrightarrow> \<forall>r\<in>set rels. \<not> dot_free r \<Longrightarrow>
   abs_buckets bs' = expected (classify_path prefix) (S \<union> set rels)"
proof (induction rels arbitrary: bs S)
  case Nil
  then show ?case by simp
next
  case (Cons rel rels)
  from Cons.prems(2) obtain bs1 where 1: "process_file prefix rel bs = Inr bs1"
    and 2: "process_all prefix rels bs1 = Inr bs'"
    by (auto split: sum.splits)
  from Cons.prems(3) have dot: "\<not> dot_free rel" and rest: "\<forall>r\<in>set rels. \<not> dot_free r"
    by simp_all
  from process_file_repr [OF Cons.prems(1) 1 dot]
  have "abs_buckets bs1 = expected (classify_path prefix) (insert rel S)" .
  from Cons.IH [OF this 2 rest] show ?case by simp
qed

lemma successful_runs_agree:
  assumes "set xs = set ys"
    and "main prefix base xs = Inr m" and "main prefix base ys = Inr m'"
  shows "m = m'"
proof -
  from assms(2) obtain bs where bs: "process_all prefix (walk_audio xs) [] = Inr bs"
    and m: "m = assemble base bs"
    by (auto simp: main_def split: sum.splits)
  from assms(3) obtain bs' where bs': "process_all prefix (walk_audio ys) [] = Inr bs'"
    and m': "m' = assemble base bs'"
    by (auto simp: main_def split: sum.splits)
  have e: "abs_buckets [] = expected (classify_path prefix) {}"
    by (simp add: abs_buckets_def expected_def fun_eq_iff)
  have "abs_buckets bs = expected (classify_path prefix) ({} \<union> set (walk_audio xs))"
    using e bs by (rule process_all_repr) (auto dest: audio_path_has_dot)
  moreover have "abs_buckets bs' = expected (classify_path prefix) ({} \<union> set (walk_audio ys))"
    using e bs' by (rule process_all_repr) (auto dest: audio_path_has_dot)
  moreover from assms(1) have "set (walk_audio xs) = set (walk_audio ys)"
    by (simp add: walk_audio_def)
  ultimately have "abs_buckets bs = abs_buckets bs'" by simp
  moreover have w: "wf_buckets []" by (simp add: wf_buckets_def)
  from wf_process_all [OF w bs] wf_process_all [OF w bs']
  have "wf_buckets bs" "wf_buckets bs'" .
  ultimately show ?thesis
    unfolding m m' by (intro assemble_unique)
qed

section \<open>Bucket shapes (C7)\<close>

lemma pitch_map_add_keeps:
  assumes "map_of d q = Some l"
  shows "\<exists>l'. map_of (AList.update p
            (append_new rel (case map_of d p of None \<Rightarrow> [] | Some l \<Rightarrow> l)) d) q = Some l' \<and>
          set l \<subseteq> set l'"
  using assms by (cases "q = p") (auto simp: AList.update_conv')

lemma add_to_list_step:
  assumes "add_to_list key rel bs = Inr bs'"
  shows "case map_of bs k of
      None \<Rightarrow> map_of bs' k = (if key = k then Some (PlainList [rel]) else None)
    | Some (PlainList l) \<Rightarrow>
        map_of bs' k = Some (PlainList (if key = k then append_new rel l else l))
    | Some (PitchMap d) \<Rightarrow> map_of bs' k = Some (PitchMap d)"
proof (cases "map_of bs key")
  case None
  with assms have "bs' = AList.update key (PlainList [rel]) bs"
    by (simp add: add_to_list_eq)
  with None show ?thesis
    by (auto simp: AList.update_conv' split: option.splits bucket.splits)
next
  case (Some b)
  show ?thesis
  proof (cases b)
    case (PlainList l)
    with Some assms have "bs' = AList.update key (PlainList (append_new rel l)) bs"
      by (simp add: add_to_list_eq)
    with Some PlainList show ?thesis
      by (auto simp: AList.update_conv' split: option.splits bucket.splits)
  next
    case (PitchMap d)
    with Some assms have "bs' = bs"
      by (simp add: add_to_list_eq split: if_splits)
    with Some PitchMap show ?thesis
      by (cases "key = k") (auto split: option.splits bucket.splits)
  qed
qed

lemma contribute_step:
  assumes run: "contribute c rel bs = Inr bs'"
    and lab: "is_pitched c \<longrightarrow> label_of c \<noteq> ''unpitched''"
  shows "case map_of bs k of
      None \<Rightarrow>
        map_of bs' k =
          (if key_of c = k
           then Some (if is_pitched c then PitchMap [(label_of c, [rel])] else PlainList [rel])
           else None)
    | Some (PlainList l) \<Rightarrow>
        map_of bs' k =
          Some (if key_of c \<noteq> k then PlainList l
                else if is_pitched c then PitchMap [(''unpitched'', l), (label_of c, [rel])]
                else PlainList (append_new rel l))
    | Some (PitchMap d) \<Rightarrow>
        (\<exists>d'. map_of bs' k = Some (PitchMap d') \<and>
           (\<forall>p l. map_of d p = Some l \<longrightarrow> (\<exists>l'. map_of d' p = Some l' \<and> set l \<subseteq> set l')))"
proof (cases c)
  case (DrumsLoop key)
  with run have "add_to_list key rel bs = Inr bs'" by simp
  from add_to_list_step [OF this, of k] DrumsLoop show ?thesis
    by (auto simp: key_of_def is_pitched_def split: option.splits bucket.splits)
next
  case (GenericLoop key)
  with run have "add_to_list key rel bs = Inr bs'" by simp
  from add_to_list_step [OF this, of k] GenericLoop show ?thesis
    by (auto simp: key_of_def is_pitched_def split: option.splits bucket.splits)
next
  case (Unpitched key)
  show ?thesis
  proof (cases "\<exists>d. map_of bs key = Some (PitchMap d)")
    case True
    then obtain d where d: "map_of bs key = Some (PitchMap d)" by blast
    let ?d = "AList.update ''unpitched''
        (append_new rel (case map_of d ''unpitched'' of None \<Rightarrow> [] | Some l \<Rightarrow> l)) d"
    from run Unpitched d have bs': "bs' = AList.update key (PitchMap ?d) bs"
      by (simp add: add_under_eq)
    show ?thesis
    proof (cases "k = key")
      case True
      have "\<forall>p l. map_of d p = Some l \<longrightarrow> (\<exists>l'. map_of ?d p = Some l' \<and> set l \<subseteq> set l')"
        by (intro allI impI) (rule pitch_map_add_keeps)
      with True d bs' show ?thesis
        by (simp add: AList.update_conv')
    next
      case False
      with bs' Unpitched show ?thesis
        by (auto simp: AList.update_conv' key_of_def split: option.splits bucket.splits)
    qed
  next
    case False
    with run Unpitched have "add_to_list key rel bs = Inr bs'"
      by (auto split: option.splits bucket.splits)
    from add_to_list_step [OF this, of k] Unpitched show ?thesis
      by (auto simp: key_of_def is_pitched_def split: option.splits bucket.splits)
  qed
next
  case (Pitched key p)
  let ?e = "ensure_map (case map_of bs key of None \<Rightarrow> PitchMap [] | Some b \<Rightarrow> b)"
  let ?d = "AList.update p (append_new rel (case map_of ?e p of None \<Rightarrow> [] | Some l \<Rightarrow> l)) ?e"
  from run Pitched have bs': "bs' = AList.update key (PitchMap ?d) bs"
    by (simp add: add_under_eq Let_def)
  from lab Pitched have p: "p \<noteq> ''unpitched''"
    by (simp add: is_pitched_def label_of_def)
  show ?thesis
  proof (cases "k = key")
    case False
    with bs' Pitched show ?thesis
      by (auto simp: AList.update_conv' key_of_def split: option.splits bucket.splits)
  next
    case True
    show ?thesis
    proof (cases "map_of bs key")
      case None
      then have "?d = [(p, [rel])]"
        by (simp add: ensure_map_simps append_new_def)
      with None True bs' Pitched show ?thesis
        by (simp add: AList.update_conv' key_of_def is_pitched_def label_of_def)
    next
      case (Some b)
      show ?thesis
      proof (cases b)
        case (PlainList l)
        with Some p have "?d = [(''unpitched'', l), (p, [rel])]"
          by (simp add: ensure_map_simps append_new_def)
        with Some PlainList True bs' Pitched show ?thesis
          by (simp add: AList.update_conv' key_of_def is_pitched_def label_of_def)
      next
        case (PitchMap d)
        with Some have e: "?e = d" by (simp add: ensure_map_simps)
        have "\<forall>q l. map_of d q = Some l \<longrightarrow> (\<exists>l'. map_of ?d q = Some l' \<and> set l \<subseteq> set l')"
          unfolding e by (intro allI impI) (rule pitch_map_add_keeps)
        with Some PitchMap True bs' show ?thesis
          by (simp add: AList.update_conv')
      qed
    qed
  qed
qed

lemma keeps_entries_refl: "keeps_entries d d"
  by (simp add: keeps_entries_def)

lemma keeps_entries_trans: "keeps_entries d d' \<Longrightarrow> keeps_entries d' d'' \<Longrightarrow> keeps_entries d d''"
  unfolding keeps_entries_def by (meson subset_trans)

lemma keeps_entriesD:
  "keeps_entries d d' \<Longrightarrow> map_of d p = Some l \<Longrightarrow>
     \<exists>l'. map_of d' p = Some l' \<and> set l \<subseteq> set l'"
  unfolding keeps_entries_def by blast

lemma is_pitched_for_iff: "is_pitched_for k c \<longleftrightarrow> is_pitched c \<and> key_of c = k"
  by (cases c) (auto simp: is_pitched_for_def is_pitched_def key_of_def)

lemma process_file_step:
  assumes "process_file prefix rel bs = Inr bs'"
  shows "case map_of bs k of
      None \<Rightarrow>
        map_of bs' k =
          (if key_of (classify_path prefix rel) = k
           then Some (if is_pitched (classify_path prefix rel)
                      then PitchMap [(label_of (classify_path prefix rel), [rel])]
                      else PlainList [rel])
           else None)
    | Some (PlainList l) \<Rightarrow>
        map_of bs' k =
          Some (if key_of (classify_path prefix rel) \<noteq> k then PlainList l
                else if is_pitched (classify_path prefix rel)
                then PitchMap [(''unpitched'', l), (label_of (classify_path prefix rel), [rel])]
                else PlainList (append_new rel l))
    | Some (PitchMap d) \<Rightarrow> (\<exists>d'. map_of bs' k = Some (PitchMap d') \<and> keeps_entries d d')"
proof -
  from assms have "contribute (classify_path prefix rel) rel bs = Inr bs'"
    by (simp add: process_file_def classify_path_def)
  moreover have "is_pitched (classify_path prefix rel) \<longrightarrow>
      label_of (classify_path prefix rel) \<noteq> ''unpitched''"
    unfolding classify_path_def by (simp add: pitched_iff_label)
  ultimately show ?thesis
    unfolding keeps_entries_def by (rule contribute_step)
qed

lemma process_all_append:
  "process_all prefix (xs @ ys) bs = Inr bs' \<longleftrightarrow>
     (\<exists>mid. process_all prefix xs bs = Inr mid \<and> process_all prefix ys mid = Inr bs')"
  by (induction xs arbitrary: bs) (auto split: sum.splits)

lemma run_pitch_map:
  "process_all prefix rels bs = Inr bs' \<Longrightarrow> map_of bs k = Some (PitchMap d) \<Longrightarrow>
     \<exists>d'. map_of bs' k = Some (PitchMap d') \<and> keeps_entries d d'"
proof (induction rels arbitrary: bs d)
  case Nil
  then show ?case by (auto simp: keeps_entries_refl)
next
  case (Cons rel rels)
  from Cons.prems(1) obtain bs1 where 1: "process_file prefix rel bs = Inr bs1"
    and 2: "process_all prefix rels bs1 = Inr bs'"
    by (auto split: sum.splits)
  from process_file_step [OF 1, of k] Cons.prems(2)
  obtain d1 where d1: "map_of bs1 k = Some (PitchMap d1)" "keeps_entries d d1"
    by auto
  from Cons.IH [OF 2 d1(1)] obtain d' where "map_of bs' k = Some (PitchMap d')" "keeps_entries d1 d'"
    by blast
  with d1(2) show ?case
    by (blast intro: keeps_entries_trans)
qed

lemma run_plain_list:
  "process_all prefix rels bs = Inr bs' \<Longrightarrow> map_of bs k = Some (PlainList l) \<Longrightarrow>
     (if \<exists>x\<in>set rels. is_pitched_for k (classify_path prefix x)
      then \<exists>d' u. map_of bs' k = Some (PitchMap d') \<and> map_of d' ''unpitched'' = Some u \<and>
             set l \<subseteq> set u
      else \<exists>l'. map_of bs' k = Some (PlainList l') \<and> set l \<subseteq> set l')"
proof (induction rels arbitrary: bs l)
  case Nil
  then show ?case by simp
next
  case (Cons rel rels)
  let ?c = "classify_path prefix rel"
  from Cons.prems(1) obtain bs1 where 1: "process_file prefix rel bs = Inr bs1"
    and 2: "process_all prefix rels bs1 = Inr bs'"
    by (auto split: sum.splits)
  note step = process_file_step [OF 1, of k]
  show ?case
  proof (cases "is_pitched_for k ?c")
    case True
    with step Cons.prems(2)
    have "map_of bs1 k = Some (PitchMap [(''unpitched'', l), (label_of ?c, [rel])])"
      by (simp add: is_pitched_for_iff)
    from run_pitch_map [OF 2 this] obtain d' where
      d': "map_of bs' k = Some (PitchMap d')"
        "keeps_entries [(''unpitched'', l), (label_of ?c, [rel])] d'"
      by blast
    have "map_of [(''unpitched'', l), (label_of ?c, [rel])] ''unpitched'' = Some l"
      by simp
    from keeps_entriesD [OF d'(2) this]
    obtain u where "map_of d' ''unpitched'' = Some u" "set l \<subseteq> set u"
      by blast
    with d'(1) True show ?thesis by auto
  next
    case False
    with step Cons.prems(2) obtain l1 where l1: "map_of bs1 k = Some (PlainList l1)" "set l \<subseteq> set l1"
      by (cases "key_of ?c = k") (auto simp: is_pitched_for_iff)
    from Cons.IH [OF 2 l1(1)] l1(2) False show ?thesis
      by (auto split: if_splits)
  qed
qed

lemma run_none:
  "process_all prefix rels bs = Inr bs' \<Longrightarrow> map_of bs k = None \<Longrightarrow>
   \<forall>x\<in>set rels. key_of (classify_path prefix x) \<noteq> k \<Longrightarrow> map_of bs' k = None"
proof (induction rels arbitrary: bs)
  case Nil
  then show ?case by simp
next
  case (Cons rel rels)
  from Cons.prems(1) obtain bs1 where 1: "process_file prefix rel bs = Inr bs1"
    and 2: "process_all prefix rels bs1 = Inr bs'"
    by (auto split: sum.splits)
  from process_file_step [OF 1, of k] Cons.prems(2,3) have "map_of bs1 k = None"
    by simp
  from Cons.IH [OF 2 this] Cons.prems(3) show ?case by simp
qed

lemma run_first:
  assumes run: "process_all prefix (pre @ r # post) bs = Inr bs'"
    and none: "map_of bs k = None"
    and pre: "\<forall>x\<in>set pre. key_of (classify_path prefix x) \<noteq> k"
    and key: "key_of (classify_path prefix r) = k"
  shows "if is_pitched (classify_path prefix r) \<or>
            (\<exists>x\<in>set post. is_pitched_for k (classify_path prefix x))
         then \<exists>d' u. map_of bs' k = Some (PitchMap d') \<and>
                map_of d' (label_of (classify_path prefix r)) = Some u \<and> r \<in> set u
         else \<exists>l'. map_of bs' k = Some (PlainList l') \<and> r \<in> set l'"
proof -
  let ?c = "classify_path prefix r"
  from run obtain b1 where 1: "process_all prefix pre bs = Inr b1"
    and rest: "process_all prefix (r # post) b1 = Inr bs'"
    unfolding process_all_append by blast
  from rest obtain b2 where 2: "process_file prefix r b1 = Inr b2"
    and 3: "process_all prefix post b2 = Inr bs'"
    by (auto split: sum.splits)
  from run_none [OF 1 none pre] have n1: "map_of b1 k = None" .
  note step = process_file_step [OF 2, of k]
  show ?thesis
  proof (cases "is_pitched ?c")
    case True
    with step n1 key have "map_of b2 k = Some (PitchMap [(label_of ?c, [r])])"
      by simp
    from run_pitch_map [OF 3 this] obtain d' where
      d': "map_of bs' k = Some (PitchMap d')" "keeps_entries [(label_of ?c, [r])] d'"
      by blast
    have "map_of [(label_of ?c, [r])] (label_of ?c) = Some [r]"
      by simp
    from keeps_entriesD [OF d'(2) this]
    obtain u where "map_of d' (label_of ?c) = Some u" "r \<in> set u"
      by auto
    with d'(1) True show ?thesis by auto
  next
    case False
    with step n1 key have b2: "map_of b2 k = Some (PlainList [r])"
      by simp
    from False have lab: "label_of ?c = ''unpitched''"
      unfolding classify_path_def by (simp add: pitched_iff_label)
    from run_plain_list [OF 3 b2] False lab show ?thesis
      by (auto split: if_splits)
  qed
qed

text \<open>
  C7: every bucket takes the shape required by its first contribution and changes
  shape only by the promotion of a plain list to a pitch map at a pitched one-shot,
  which keeps the paths of the list under \<^verbatim>\<open>unpitched\<close>. In the first conjunct \<open>bs'\<close>
  are the buckets after one iteration of the loop of \<^verbatim>\<open>main\<close> that does not raise,
  for the file \<open>rel\<close>. A bucket that does not exist is created exactly when the file
  contributes to its key, as the pitch map holding \<open>rel\<close> under its pitch label for a
  pitched one-shot and as the plain list \<open>[rel]\<close> otherwise. A plain list stays one
  and receives \<open>rel\<close>, unless the file is a pitched one-shot for its key: then it
  becomes the pitch map with the whole list under \<^verbatim>\<open>unpitched\<close> and \<open>rel\<close> under its
  pitch label. A pitch map stays a pitch map and loses no label and no path. In the
  second conjunct \<open>bs''\<close> are the buckets after a run over the files \<open>rels\<close> that does
  not raise. A bucket that does not exist at the start and whose key no file has does
  not exist at the end; if \<open>r\<close> is the first file with its key, the bucket ends as a
  pitch map if \<open>r\<close> or a later file is a pitched one-shot for it, and as a plain list
  otherwise, and holds \<open>r\<close> (under the label of \<open>r\<close> in a pitch map). A plain list at
  the start ends as a pitch map with its paths under \<^verbatim>\<open>unpitched\<close> if some file is a
  pitched one-shot for it, and as a plain list with its paths otherwise. A pitch map at
  the start ends as a pitch map with all its labels and paths.
\<close>

theorem bucket_shape_invariant:
  "(process_file prefix rel bs = Inr bs' \<longrightarrow>
      (case map_of bs k of
         None \<Rightarrow>
           map_of bs' k =
             (if key_of (classify_path prefix rel) = k
              then Some (if is_pitched (classify_path prefix rel)
                         then PitchMap [(label_of (classify_path prefix rel), [rel])]
                         else PlainList [rel])
              else None)
       | Some (PlainList l) \<Rightarrow>
           map_of bs' k =
             Some (if key_of (classify_path prefix rel) \<noteq> k then PlainList l
                   else if is_pitched (classify_path prefix rel)
                   then PitchMap [(''unpitched'', l), (label_of (classify_path prefix rel), [rel])]
                   else PlainList (append_new rel l))
       | Some (PitchMap d) \<Rightarrow> (\<exists>d'. map_of bs' k = Some (PitchMap d') \<and> keeps_entries d d'))) \<and>
   (process_all prefix rels bs = Inr bs'' \<longrightarrow>
      (case map_of bs k of
         None \<Rightarrow>
           ((\<forall>x\<in>set rels. key_of (classify_path prefix x) \<noteq> k) \<longrightarrow> map_of bs'' k = None) \<and>
           (\<forall>pre r post.
              rels = pre @ r # post \<and>
              (\<forall>x\<in>set pre. key_of (classify_path prefix x) \<noteq> k) \<and>
              key_of (classify_path prefix r) = k \<longrightarrow>
              (if is_pitched (classify_path prefix r) \<or>
                  (\<exists>x\<in>set post. is_pitched_for k (classify_path prefix x))
               then \<exists>d' u. map_of bs'' k = Some (PitchMap d') \<and>
                      map_of d' (label_of (classify_path prefix r)) = Some u \<and> r \<in> set u
               else \<exists>l'. map_of bs'' k = Some (PlainList l') \<and> r \<in> set l'))
       | Some (PlainList l) \<Rightarrow>
           (if \<exists>x\<in>set rels. is_pitched_for k (classify_path prefix x)
            then \<exists>d' u. map_of bs'' k = Some (PitchMap d') \<and>
                   map_of d' ''unpitched'' = Some u \<and> set l \<subseteq> set u
            else \<exists>l'. map_of bs'' k = Some (PlainList l') \<and> set l \<subseteq> set l')
       | Some (PitchMap d) \<Rightarrow> (\<exists>d'. map_of bs'' k = Some (PitchMap d') \<and> keeps_entries d d')))"
proof (intro conjI impI)
  assume "process_file prefix rel bs = Inr bs'"
  then show "case map_of bs k of
         None \<Rightarrow>
           map_of bs' k =
             (if key_of (classify_path prefix rel) = k
              then Some (if is_pitched (classify_path prefix rel)
                         then PitchMap [(label_of (classify_path prefix rel), [rel])]
                         else PlainList [rel])
              else None)
       | Some (PlainList l) \<Rightarrow>
           map_of bs' k =
             Some (if key_of (classify_path prefix rel) \<noteq> k then PlainList l
                   else if is_pitched (classify_path prefix rel)
                   then PitchMap [(''unpitched'', l), (label_of (classify_path prefix rel), [rel])]
                   else PlainList (append_new rel l))
       | Some (PitchMap d) \<Rightarrow> (\<exists>d'. map_of bs' k = Some (PitchMap d') \<and> keeps_entries d d')"
    by (rule process_file_step)
next
  assume run: "process_all prefix rels bs = Inr bs''"
  show "case map_of bs k of
         None \<Rightarrow>
           ((\<forall>x\<in>set rels. key_of (classify_path prefix x) \<noteq> k) \<longrightarrow> map_of bs'' k = None) \<and>
           (\<forall>pre r post.
              rels = pre @ r # post \<and>
              (\<forall>x\<in>set pre. key_of (classify_path prefix x) \<noteq> k) \<and>
              key_of (classify_path prefix r) = k \<longrightarrow>
              (if is_pitched (classify_path prefix r) \<or>
                  (\<exists>x\<in>set post. is_pitched_for k (classify_path prefix x))
               then \<exists>d' u. map_of bs'' k = Some (PitchMap d') \<and>
                      map_of d' (label_of (classify_path prefix r)) = Some u \<and> r \<in> set u
               else \<exists>l'. map_of bs'' k = Some (PlainList l') \<and> r \<in> set l'))
       | Some (PlainList l) \<Rightarrow>
           (if \<exists>x\<in>set rels. is_pitched_for k (classify_path prefix x)
            then \<exists>d' u. map_of bs'' k = Some (PitchMap d') \<and>
                   map_of d' ''unpitched'' = Some u \<and> set l \<subseteq> set u
            else \<exists>l'. map_of bs'' k = Some (PlainList l') \<and> set l \<subseteq> set l')
       | Some (PitchMap d) \<Rightarrow> (\<exists>d'. map_of bs'' k = Some (PitchMap d') \<and> keeps_entries d d')"
  proof (cases "map_of bs k")
    case None
    have "map_of bs'' k = None" if "\<forall>x\<in>set rels. key_of (classify_path prefix x) \<noteq> k"
      using run None that by (rule run_none)
    moreover have "if is_pitched (classify_path prefix r) \<or>
                  (\<exists>x\<in>set post. is_pitched_for k (classify_path prefix x))
               then \<exists>d' u. map_of bs'' k = Some (PitchMap d') \<and>
                      map_of d' (label_of (classify_path prefix r)) = Some u \<and> r \<in> set u
               else \<exists>l'. map_of bs'' k = Some (PlainList l') \<and> r \<in> set l'"
      if "rels = pre @ r # post \<and>
          (\<forall>x\<in>set pre. key_of (classify_path prefix x) \<noteq> k) \<and>
          key_of (classify_path prefix r) = k" for pre r post
      using run None that by (intro run_first [where pre = pre]) auto
    ultimately show ?thesis
      unfolding None option.case by blast
  next
    case (Some b)
    show ?thesis
    proof (cases b)
      case (PlainList l)
      from run_plain_list [OF run Some [unfolded PlainList]] Some PlainList show ?thesis
        by simp
    next
      case (PitchMap d)
      from run_pitch_map [OF run Some [unfolded PitchMap]] Some PitchMap show ?thesis
        by simp
    qed
  qed
qed

text \<open>C7 at a run with prefix \<^verbatim>\<open>p\<close> over an unpitched and then a pitched snare: the
  first file creates the plain list \<^verbatim>\<open>p_snare\<close>, the second promotes it.\<close>

theorem bucket_shape_invariant_witness:
  "process_file ''p'' ''Snares/hit.wav'' [] = Inr [(''p_snare'', PlainList [''Snares/hit.wav''])] \<and>
   process_file ''p'' ''Snares/hit_c3.wav'' [(''p_snare'', PlainList [''Snares/hit.wav''])] =
     Inr [(''p_snare'', PitchMap [(''unpitched'', [''Snares/hit.wav'']),
                                  (''c3'', [''Snares/hit_c3.wav''])])] \<and>
   process_all ''p'' [''Snares/hit.wav'', ''Snares/hit_c3.wav''] [] =
     Inr [(''p_snare'', PitchMap [(''unpitched'', [''Snares/hit.wav'']),
                                  (''c3'', [''Snares/hit_c3.wav''])])] \<and>
   map_of [(''p_snare'', PlainList [''Snares/hit.wav''])] ''p_snare'' =
     Some (PlainList [''Snares/hit.wav'']) \<and>
   map_of [(''p_snare'', PitchMap [(''unpitched'', [''Snares/hit.wav'']),
                                   (''c3'', [''Snares/hit_c3.wav''])])] ''p_snare'' =
     Some (PitchMap [(''unpitched'', [''Snares/hit.wav'']), (''c3'', [''Snares/hit_c3.wav''])]) \<and>
   (\<exists>d' u. map_of [(''p_snare'', PitchMap [(''unpitched'', [''Snares/hit.wav'']),
                                           (''c3'', [''Snares/hit_c3.wav''])])] ''p_snare'' =
              Some (PitchMap d') \<and>
            map_of d' ''unpitched'' = Some u \<and> ''Snares/hit.wav'' \<in> set u)"
proof -
  let ?a = "''Snares/hit.wav''"
  let ?b = "''Snares/hit_c3.wav''"
  let ?B1 = "[(''p_snare'', PlainList [?a])]"
  let ?B2 = "[(''p_snare'', PitchMap [(''unpitched'', [?a]), (''c3'', [?b])])]"
  have run1: "process_file ''p'' ?a [] = Inr ?B1" by code_simp
  have run2: "process_file ''p'' ?b ?B1 = Inr ?B2" by code_simp
  have run3: "process_all ''p'' [?a, ?b] [] = Inr ?B2" by code_simp
  have a: "key_of (classify_path ''p'' ?a) = ''p_snare''"
    "\<not> is_pitched (classify_path ''p'' ?a)"
    "label_of (classify_path ''p'' ?a) = ''unpitched''"
    by code_simp+
  have b: "key_of (classify_path ''p'' ?b) = ''p_snare''"
    "is_pitched (classify_path ''p'' ?b)"
    "label_of (classify_path ''p'' ?b) = ''c3''"
    "is_pitched_for ''p_snare'' (classify_path ''p'' ?b)"
    by code_simp+
  note s1 = bucket_shape_invariant [where prefix = "''p''" and rel = ?a and bs = "[]"
      and bs' = ?B1 and k = "''p_snare''", THEN conjunct1, THEN mp, OF run1]
  note s2 = bucket_shape_invariant [where prefix = "''p''" and rel = ?b and bs = ?B1
      and bs' = ?B2 and k = "''p_snare''", THEN conjunct1, THEN mp, OF run2]
  note r3 = bucket_shape_invariant [where prefix = "''p''" and rels = "[?a, ?b]" and bs = "[]"
      and bs'' = ?B2 and k = "''p_snare''", THEN conjunct2, THEN mp, OF run3]
  from s1 a have c1: "map_of ?B1 ''p_snare'' = Some (PlainList [?a])"
    by simp
  from s2 b have c2: "map_of ?B2 ''p_snare'' = Some (PitchMap [(''unpitched'', [?a]), (''c3'', [?b])])"
    by simp
  have n: "map_of ([] :: buckets) ''p_snare'' = None" by simp
  have first: "[?a, ?b] = [] @ ?a # [?b] \<and>
      (\<forall>x\<in>set []. key_of (classify_path ''p'' x) \<noteq> ''p_snare'') \<and>
      key_of (classify_path ''p'' ?a) = ''p_snare''"
    using a(1) by simp
  note r3 [unfolded n option.case, THEN conjunct2, THEN spec, of "[]", THEN spec, of ?a,
      THEN spec, of "[?b]", THEN mp, OF first]
  with a b have c3: "\<exists>d' u. map_of ?B2 ''p_snare'' = Some (PitchMap d') \<and>
              map_of d' ''unpitched'' = Some u \<and> ?a \<in> set u"
    by simp
  from run1 run2 run3 c1 c2 c3 show ?thesis
    by (intro conjI)
qed

section \<open>Well-formed manifests (C8)\<close>

text \<open>
  C8: in the manifest that \<^verbatim>\<open>main\<close> prints, the top-level keys, \<^verbatim>\<open>_base\<close> among
  them, are in lexicographic order (and distinct), every list of paths, top-level or
  under a pitch label, is in lexicographic order without duplicates, and the pitch
  labels of every pitch map are in lexicographic order.
\<close>

theorem manifest_well_formed:
  assumes "main prefix base paths = Inr m"
  shows "sorted (map fst m) \<and> distinct (map fst m) \<and> ''_base'' \<in> fst ` set m \<and>
         (\<forall>(k, e) \<in> set m. wf_entry e)"
proof -
  from assms obtain bs where run: "process_all prefix (walk_audio paths) [] = Inr bs"
    and m: "m = assemble base bs"
    by (auto simp: main_def split: sum.splits)
  have "wf_buckets []" by (simp add: wf_buckets_def)
  from wf_process_all [OF this run] have wf: "\<forall>(k, b) \<in> set bs. wf_bucket b"
    by (simp add: wf_buckets_def)
  let ?f = "fold (\<lambda>(k, v) m. AList.update k (sorted_bucket v) m) bs [(''_base'', Base base)]"
  have f: "distinct (map fst ?f) \<and> (\<forall>(k, e) \<in> set ?f. wf_entry e) \<and> ''_base'' \<in> fst ` set ?f"
    by (rule fold_update_wf [OF wf]) (simp_all add: wf_entry_def)
  have "sorted (map fst m)"
    unfolding m assemble_def sort_items_def by (rule sorted_sort_key)
  moreover have "distinct (map fst m)"
    unfolding m assemble_def sort_items_def using f by (simp add: distinct_map_sort_key)
  moreover have "''_base'' \<in> fst ` set m" "\<forall>(k, e) \<in> set m. wf_entry e"
    unfolding m assemble_def sort_items_def using f by simp_all
  ultimately show ?thesis by simp
qed

text \<open>C8 at a run over a loop, a pitched one-shot and two unpitched one-shots.\<close>

theorem manifest_well_formed_witness:
  "main ''p'' ''base''
     [''one shots/Bass/Bass_C3.wav'', ''Custom/Snares/Snare_Hit.wav'', ''loops/Piano_120_cm.wav'',
      ''Custom/Snares/Snare_Air.wav''] =
     Inr [(''_base'', Base ''base''),
          (''p_120_cm'', Paths [''loops/Piano_120_cm.wav'']),
          (''p_bass'', Pitches [(''c3'', [''one shots/Bass/Bass_C3.wav''])]),
          (''p_snare'', Paths [''Custom/Snares/Snare_Air.wav'', ''Custom/Snares/Snare_Hit.wav''])] \<and>
   sorted [''_base'', ''p_120_cm'', ''p_bass'', ''p_snare''] \<and>
   sorted [''Custom/Snares/Snare_Air.wav'', ''Custom/Snares/Snare_Hit.wav'']"
proof -
  have run: "main ''p'' ''base''
     [''one shots/Bass/Bass_C3.wav'', ''Custom/Snares/Snare_Hit.wav'', ''loops/Piano_120_cm.wav'',
      ''Custom/Snares/Snare_Air.wav''] =
     Inr [(''_base'', Base ''base''),
          (''p_120_cm'', Paths [''loops/Piano_120_cm.wav'']),
          (''p_bass'', Pitches [(''c3'', [''one shots/Bass/Bass_C3.wav''])]),
          (''p_snare'', Paths [''Custom/Snares/Snare_Air.wav'', ''Custom/Snares/Snare_Hit.wav''])]"
    by code_simp
  from manifest_well_formed [OF run] run show ?thesis
    by (simp add: wf_entry_def)
qed

section \<open>Key extraction precedence (C5)\<close>

lemma oct_match_at_bound: "oct_match_at s p = Some g \<Longrightarrow> p \<le> length s"
  by (cases "p \<le> length s") (auto simp: oct_match_at_def split: if_splits)

lemma tok_match_at_bound: "tok_match_at s p = Some g \<Longrightarrow> p \<le> length s"
  by (cases "p \<le> length s") (auto simp: tok_match_at_def split: if_splits)

lemma tok_quals_qual:
  "tok_quals l a xs = Some (l', a', q) \<Longrightarrow> q = ''maj'' \<or> q = ''min'' \<or> q = ''m'' \<or> q = []"
  by (auto simp: tok_quals_def tok_qual_def first_some_Cons_Some split: if_splits)

lemma tok_body_qual:
  assumes "tok_body xs = Some (l, a, q)"
  shows "q = ''maj'' \<or> q = ''min'' \<or> q = ''m'' \<or> q = []"
proof -
  from assms have "\<exists>l' a' r. tok_quals l' a' r = Some (l, a, q)"
    by (auto simp: tok_body_def first_some_Cons_Some split: list.splits if_splits)
  then show ?thesis by (blast dest: tok_quals_qual)
qed

lemma tok_match_at_qual:
  assumes "tok_match_at s i = Some (l, a, q)"
  shows "q = ''maj'' \<or> q = ''min'' \<or> q = ''m'' \<or> q = []"
proof -
  from assms have "\<exists>xs. tok_body xs = Some (l, a, q)"
    by (auto simp: tok_match_at_def first_some_Cons_Some split: list.splits if_splits)
  then show ?thesis by (blast dest: tok_body_qual)
qed

lemma lc_qual: "q = ''maj'' \<or> q = ''min'' \<or> q = ''m'' \<or> q = [] \<Longrightarrow> lc q = q"
proof -
  have "lc ''maj'' = ''maj''" "lc ''min'' = ''min''" "lc ''m'' = ''m''" "lc [] = []"
    by code_simp+
  then show "q = ''maj'' \<or> q = ''min'' \<or> q = ''m'' \<or> q = [] \<Longrightarrow> lc q = q" by auto
qed

lemma oct_digit_digit:
  "oct_digit l a xs = Some (l', a', d) \<Longrightarrow> \<exists>c. d = [c] \<and> is_digit c"
  by (auto simp: oct_digit_def split: list.splits if_splits)

lemma oct_body_digit:
  assumes "oct_body xs = Some (l, a, d)"
  shows "\<exists>c. d = [c] \<and> is_digit c"
proof -
  from assms have "\<exists>l' a' r. oct_digit l' a' r = Some (l, a, d)"
    by (auto simp: oct_body_def first_some_Cons_Some split: list.splits if_splits)
  then show ?thesis by (blast dest: oct_digit_digit)
qed

lemma oct_match_at_digit:
  assumes "oct_match_at s i = Some (l, a, d)"
  shows "\<exists>c. d = [c] \<and> is_digit c"
proof -
  from assms have "\<exists>xs. oct_body xs = Some (l, a, d)"
    by (auto simp: oct_match_at_def first_some_Cons_Some split: list.splits if_splits)
  then show ?thesis by (blast dest: oct_body_digit)
qed

lemma int_of_digits_single: "int_of_digits [c] = digit_val c"
  by (simp add: int_of_digits_def)

lemma oct_nowhere:
  "search_from oct_match_at s 0 = None \<Longrightarrow> oct_match_at s i = None"
  by (cases "oct_match_at s i")
    (auto dest: oct_match_at_bound search_from_None_D [where p = i])

lemma tok_nowhere:
  "search_from tok_match_at s 0 = None \<Longrightarrow> tok_match_at s i = None"
  by (cases "tok_match_at s i")
    (auto dest: tok_match_at_bound search_from_None_D [where p = i])


text \<open>
  C5: with \<open>s\<close> the lower-cased stem, if the pattern with octave matches at some start
  position of \<open>s\<close>, \<open>get_key\<close> returns the match at the first such position, not
  minor, with the octave read from the matched digit. If that pattern matches nowhere
  and the bare pattern matches somewhere, \<open>get_key\<close> returns the bare match at its first
  position, with no octave and minor exactly when the suffix is \<^verbatim>\<open>m\<close> or \<^verbatim>\<open>min\<close>. If
  neither pattern matches anywhere, \<open>get_key\<close> returns nothing.
\<close>

theorem get_key_precedence:
  "(\<forall>i l a d. oct_match_at (lc stem) i = Some (l, a, d) \<and>
        (\<forall>j<i. oct_match_at (lc stem) j = None) \<longrightarrow>
      (\<exists>c. d = [c] \<and> is_digit c \<and>
         get_key stem =
           Some \<lparr>root = normalize_note (l @ a), minor = False, oct = Some (digit_val c)\<rparr>)) \<and>
   ((\<forall>i. oct_match_at (lc stem) i = None) \<longrightarrow>
      (\<forall>i l a q. tok_match_at (lc stem) i = Some (l, a, q) \<and>
          (\<forall>j<i. tok_match_at (lc stem) j = None) \<longrightarrow>
        (q = ''maj'' \<or> q = ''min'' \<or> q = ''m'' \<or> q = []) \<and>
        get_key stem =
          Some \<lparr>root = normalize_note (l @ a), minor = (q = ''m'' \<or> q = ''min''), oct = None\<rparr>)) \<and>
   ((\<forall>i. oct_match_at (lc stem) i = None) \<and> (\<forall>i. tok_match_at (lc stem) i = None) \<longrightarrow>
      get_key stem = None)"
proof -
  have A: "\<exists>c. d = [c] \<and> is_digit c \<and>
         get_key stem =
           Some \<lparr>root = normalize_note (l @ a), minor = False, oct = Some (digit_val c)\<rparr>"
    if h: "oct_match_at (lc stem) i = Some (l, a, d)"
      and first: "\<forall>j<i. oct_match_at (lc stem) j = None" for i l a d
  proof -
    have "search_from oct_match_at (lc stem) 0 = Some (l, a, d)"
      using h first by (intro search_from_first [where p = i]) (auto dest: oct_match_at_bound)
    moreover obtain c where "d = [c]" "is_digit c"
      using h oct_match_at_digit by blast
    ultimately show ?thesis
      by (simp add: get_key_def Let_def int_of_digits_single)
  qed
  have B: "(q = ''maj'' \<or> q = ''min'' \<or> q = ''m'' \<or> q = []) \<and>
        get_key stem =
          Some \<lparr>root = normalize_note (l @ a), minor = (q = ''m'' \<or> q = ''min''), oct = None\<rparr>"
    if none: "\<forall>i. oct_match_at (lc stem) i = None"
      and h: "tok_match_at (lc stem) i = Some (l, a, q)"
      and first: "\<forall>j<i. tok_match_at (lc stem) j = None" for i l a q
  proof -
    from none have o: "search_from oct_match_at (lc stem) 0 = None"
      by (intro search_from_none) simp
    have t: "search_from tok_match_at (lc stem) 0 = Some (l, a, q)"
      using h first by (intro search_from_first [where p = i]) (auto dest: tok_match_at_bound)
    from h have q: "q = ''maj'' \<or> q = ''min'' \<or> q = ''m'' \<or> q = []"
      by (rule tok_match_at_qual)
    then have "lc q = q" by (rule lc_qual)
    with o t q show ?thesis
      by (simp add: get_key_def Let_def)
  qed
  have C: "get_key stem = None"
    if "\<forall>i. oct_match_at (lc stem) i = None" and "\<forall>i. tok_match_at (lc stem) i = None"
  proof -
    from that have "search_from oct_match_at (lc stem) 0 = None"
      "search_from tok_match_at (lc stem) 0 = None"
      by (auto intro: search_from_none)
    then show ?thesis
      by (simp add: get_key_def Let_def)
  qed
  from A B C show ?thesis by blast
qed

text \<open>C5 at a stem with an octave token, a stem with only a bare minor key, and a stem
  with no key.\<close>

theorem get_key_precedence_witness:
  "get_key ''Bass_C3'' = Some \<lparr>root = ''c'', minor = False, oct = Some 3\<rparr> \<and>
   get_key ''Piano_120_cm'' = Some \<lparr>root = ''c'', minor = True, oct = None\<rparr> \<and>
   get_key ''groove'' = None"
proof -
  have s1: "search_from oct_match_at (lc ''Bass_C3'') 0 = Some (''c'', [], ''3'')"
    by code_simp
  from search_from_Some_D [OF s1] obtain p where
    p: "oct_match_at (lc ''Bass_C3'') p = Some (''c'', [], ''3'')"
       "\<forall>j<p. oct_match_at (lc ''Bass_C3'') j = None"
    by auto
  have s2: "search_from oct_match_at (lc ''Piano_120_cm'') 0 = None"
    by code_simp
  then have t0: "\<forall>i. oct_match_at (lc ''Piano_120_cm'') i = None"
    by (simp add: oct_nowhere)
  have s3: "search_from tok_match_at (lc ''Piano_120_cm'') 0 = Some (''c'', [], ''m'')"
    by code_simp
  from search_from_Some_D [OF s3] obtain r where
    r: "tok_match_at (lc ''Piano_120_cm'') r = Some (''c'', [], ''m'')"
       "\<forall>j<r. tok_match_at (lc ''Piano_120_cm'') j = None"
    by auto
  have s4: "search_from oct_match_at (lc ''groove'') 0 = None"
    by code_simp
  then have n1: "\<forall>i. oct_match_at (lc ''groove'') i = None"
    by (simp add: oct_nowhere)
  have s5: "search_from tok_match_at (lc ''groove'') 0 = None"
    by code_simp
  then have n2: "\<forall>i. tok_match_at (lc ''groove'') i = None"
    by (simp add: tok_nowhere)
  have d3: "digit_val CHR ''3'' = 3" by code_simp
  have nn: "normalize_note (''c'' @ []) = ''c''" by code_simp
  note T1 = get_key_precedence [of "''Bass_C3''", THEN conjunct1, THEN spec, THEN spec,
      THEN spec, THEN spec, THEN mp, OF conjI, OF p]
  note T2 = get_key_precedence [of "''Piano_120_cm''", THEN conjunct2, THEN conjunct1,
      THEN mp, OF t0, THEN spec, THEN spec, THEN spec, THEN spec, THEN mp, OF conjI, OF r]
  note T3 = get_key_precedence [of "''groove''", THEN conjunct2, THEN conjunct2,
      THEN mp, OF conjI, OF n1 n2]
  from T1 have "get_key ''Bass_C3'' = Some \<lparr>root = ''c'', minor = False, oct = Some 3\<rparr>"
    using d3 nn by auto
  moreover from T2 have
    "get_key ''Piano_120_cm'' = Some \<lparr>root = ''c'', minor = True, oct = None\<rparr>"
    using nn by simp
  ultimately show ?thesis using T3 by simp
qed

section \<open>Tempo extraction (C4)\<close>

lemma digit_not_delim: "is_digit c \<Longrightarrow> \<not> is_delim c"
  by (auto simp: is_digit_def is_delim_def code_def)

lemma digit_not_newline: "is_digit c \<Longrightarrow> c \<noteq> newline"
  by (auto simp: is_digit_def newline_def code_def)

lemma bpm_lookahead_drop:
  "e \<le> length s \<Longrightarrow> bpm_lookahead (drop e s) = right_delimited_nl s e"
proof (cases "e = length s")
  case True
  then show ?thesis
    by (simp add: bpm_lookahead_def at_dollar_def right_delimited_nl_def right_delimited_def)
next
  case False
  assume "e \<le> length s"
  with False have lt: "e < length s" by simp
  then have d: "drop e s = s ! e # drop (Suc e) s"
    by (simp add: Cons_nth_drop_Suc)
  show ?thesis
    using lt unfolding d bpm_lookahead_def at_dollar_def right_delimited_nl_def right_delimited_def
    by auto
qed

lemma bpm_digits_n_drop:
  assumes "0 < n"
  shows "bpm_digits_n n (drop j s) =
           (if digits_at s j n \<and> right_delimited_nl s (j + n)
            then Some (take n (drop j s), n) else None)"
proof (cases "j + n \<le> length s")
  case True
  then have "bpm_lookahead (drop n (drop j s)) = right_delimited_nl s (j + n)"
    by (simp add: bpm_lookahead_drop add.commute)
  with True show ?thesis
    by (auto simp: bpm_digits_n_def digits_at_def)
next
  case False
  with assms have "\<not> n \<le> length (drop j s)" by simp
  with False show ?thesis
    by (simp add: bpm_digits_n_def digits_at_def)
qed

lemma digits_at_nth:
  assumes "digits_at s j n" and "j \<le> q" and "q < j + n"
  shows "q < length s \<and> is_digit (s ! q)"
proof -
  from assms have len: "q < length s" by (simp add: digits_at_def)
  from assms have la: "list_all is_digit (take n (drop j s))"
    by (simp add: digits_at_def)
  from assms have lt: "q - j < length (take n (drop j s))"
    by (auto simp: digits_at_def)
  from la lt have "is_digit (take n (drop j s) ! (q - j))"
    unfolding list_all_length by blast
  moreover from assms have "take n (drop j s) ! (q - j) = s ! q"
    by (simp add: digits_at_def)
  ultimately show ?thesis using len by simp
qed

lemma three_digits_exclude_two:
  assumes "digits_at s j 3"
  shows "\<not> right_delimited_nl s (j + 2)"
proof -
  from digits_at_nth [OF assms, of "j + 2"] have "j + 2 < length s" "is_digit (s ! (j + 2))"
    by simp_all
  then show ?thesis
    by (auto simp: right_delimited_nl_def right_delimited_def
        dest: digit_not_delim digit_not_newline)
qed

lemma bpm_digits_groups:
  "(case bpm_digits (drop j s) of None \<Rightarrow> [] | Some (g, n) \<Rightarrow> [g]) = digit_groups s j"
  using three_digits_exclude_two [of s j]
  by (auto simp: bpm_digits_def bpm_digits_n_drop digit_groups_def)

lemma bpm_digits_Some:
  "bpm_digits (drop j s) = Some (g, n) \<Longrightarrow> (n = 2 \<or> n = 3) \<and> digits_at s j n"
  by (auto simp: bpm_digits_def bpm_digits_n_drop first_some_Cons_Some split: if_splits)

lemma tokens_at_groups:
  "tokens_at right_delimited_nl s j = (if left_delimited s j then digit_groups s j else [])"
  by (auto simp: tokens_at_def digit_groups_def tempo_token_def)

lemma first_some_single: "first_some [x] = x"
  by (cases x) auto

lemma groups_after_delim:
  "(case map_option (\<lambda>(g, n). (g, f n)) (bpm_digits (drop j s)) of
      None \<Rightarrow> [] | Some (g, e) \<Rightarrow> [g]) = digit_groups s j"
proof (cases "bpm_digits (drop j s)")
  case None
  with bpm_digits_groups [of j s] show ?thesis by simp
next
  case (Some gn)
  obtain g n where "gn = (g, n)" by (cases gn)
  with Some bpm_digits_groups [of j s] show ?thesis by simp
qed

lemma matches_at_pos:
  assumes "0 < p"
  shows "matches_at s p = tokens_at right_delimited_nl s (Suc p)"
proof (cases "p < length s")
  case True
  then have d: "drop p s = s ! p # drop (Suc p) s"
    by (simp add: Cons_nth_drop_Suc)
  have l: "left_delimited s (Suc p) = is_delim (s ! p)"
    by (simp add: left_delimited_def)
  have "bpm_match_at s p =
      (if is_delim (s ! p)
       then map_option (\<lambda>(g, n). (g, p + 1 + n)) (bpm_digits (drop (Suc p) s)) else None)"
    using assms by (simp add: bpm_match_at_def d first_some_single)
  then show ?thesis
    using groups_after_delim [of "\<lambda>n. p + 1 + n" "Suc p" s]
    unfolding matches_at_def tokens_at_groups l
    by simp
next
  case False
  then have "drop p s = []" by simp
  moreover from False have "digit_groups s (Suc p) = []"
    by (simp add: digit_groups_def digits_at_def)
  ultimately show ?thesis
    using assms by (simp add: matches_at_def bpm_match_at_def tokens_at_groups)
qed

lemma matches_at_0:
  "matches_at s 0 = tokens_at right_delimited_nl s 0 @ tokens_at right_delimited_nl s 1"
proof (cases "bpm_digits s")
  case None
  then have g0: "digit_groups s 0 = []"
    using bpm_digits_groups [of 0 s] by simp
  then have t0: "tokens_at right_delimited_nl s 0 = []"
    by (simp add: tokens_at_groups)
  show ?thesis
  proof (cases s)
    case Nil
    then show ?thesis
      using None t0
      by (simp add: matches_at_def bpm_match_at_def tokens_at_groups digit_groups_def digits_at_def)
  next
    case (Cons c rest)
    then have l: "left_delimited s 1 = is_delim c"
      by (simp add: left_delimited_def)
    from Cons have r: "rest = drop 1 s" by simp
    have "bpm_match_at s 0 =
        (if is_delim c then map_option (\<lambda>(g, n). (g, 0 + 1 + n)) (bpm_digits (drop 1 s)) else None)"
      using None by (simp add: bpm_match_at_def Cons first_some_single)
    then show ?thesis
      using groups_after_delim [of "\<lambda>n. 0 + 1 + n" 1 s] g0
      unfolding matches_at_def tokens_at_groups l
      by simp
  qed
next
  case (Some gn)
  obtain g n where gn: "gn = (g, n)" by (cases gn)
  from Some gn have b0: "bpm_digits (drop 0 s) = Some (g, n)" by simp
  from bpm_digits_Some [OF b0] have "digits_at s 0 n" "0 < n" by auto
  from digits_at_nth [OF this(1), of 0] this(2) have "0 < length s" "is_digit (s ! 0)"
    by simp_all
  then have "\<not> left_delimited s 1"
    by (simp add: left_delimited_def digit_not_delim)
  moreover have "digit_groups s 0 = [g]"
    using bpm_digits_groups [of 0 s] b0 by simp
  moreover have "bpm_match_at s 0 = Some (g, n)"
    using Some gn by (simp add: bpm_match_at_def)
  ultimately show ?thesis
    by (simp add: matches_at_def tokens_at_groups left_delimited_def)
qed

lemma bpm_match_at_needs_delim:
  assumes "0 < q" and "q < length s" and "\<not> is_delim (s ! q)"
  shows "bpm_match_at s q = None"
proof -
  from assms have "drop q s = s ! q # drop (Suc q) s"
    by (simp add: Cons_nth_drop_Suc)
  with assms show ?thesis
    by (simp add: bpm_match_at_def)
qed

lemma bpm_match_at_Some:
  assumes "bpm_match_at s p = Some (g, e)"
  shows "\<exists>j n. digits_at s j n \<and> (n = 2 \<or> n = 3) \<and> p \<le> j \<and> j \<le> Suc p \<and> e = j + n"
proof (cases "p = 0 \<and> bpm_digits s \<noteq> None")
  case True
  with assms have "bpm_digits (drop 0 s) = Some (g, e)"
    by (auto simp: bpm_match_at_def)
  from bpm_digits_Some [OF this] True show ?thesis
    by (intro exI [of _ 0] exI [of _ e]) auto
next
  case False
  with assms obtain c rest where d: "drop p s = c # rest" and "is_delim c"
    and m: "map_option (\<lambda>(g, n). (g, p + 1 + n)) (bpm_digits rest) = Some (g, e)"
    by (auto simp: bpm_match_at_def first_some_Cons_Some split: list.splits if_splits)
  from d have lt: "p < length s"
    by (cases "p < length s") auto
  with d have rest: "rest = drop (Suc p) s"
    by (simp add: Cons_nth_drop_Suc [symmetric])
  from m obtain n where "bpm_digits (drop (Suc p) s) = Some (g, n)" and e: "e = p + 1 + n"
    unfolding rest by (cases "bpm_digits (drop (Suc p) s)") auto
  from bpm_digits_Some [OF this(1)] e show ?thesis
    by (intro exI [of _ "Suc p"] exI [of _ n]) auto
qed

lemma bpm_match_at_skip:
  assumes "bpm_match_at s p = Some (g, e)"
  shows "p < e \<and> e \<le> length s \<and> (\<forall>q. p < q \<and> q < e \<longrightarrow> bpm_match_at s q = None)"
proof -
  from bpm_match_at_Some [OF assms] obtain j n where
    jn: "digits_at s j n" "n = 2 \<or> n = 3" "p \<le> j" "j \<le> Suc p" "e = j + n"
    by blast
  have "bpm_match_at s q = None" if "p < q" "q < e" for q
  proof (cases "j \<le> q")
    case True
    from digits_at_nth [OF jn(1) True] that jn(5) have "q < length s" "is_digit (s ! q)"
      by simp_all
    with that show ?thesis
      by (intro bpm_match_at_needs_delim) (auto dest: digit_not_delim)
  next
    case False
    with that jn show ?thesis by simp
  qed
  moreover from jn have "p < e" "e \<le> length s"
    by (auto simp: digits_at_def)
  ultimately show ?thesis by blast
qed

lemma finditer_from_all_positions:
  "skips m s \<Longrightarrow> finditer_from m s i =
     concat (map (\<lambda>p. case m s p of None \<Rightarrow> [] | Some (g, e) \<Rightarrow> [g]) [i..<Suc (length s)])"
proof (induction m s i rule: finditer_from.induct)
  case (1 m s i)
  let ?f = "\<lambda>p. case m s p of None \<Rightarrow> [] | Some (g, e) \<Rightarrow> [g]"
  show ?case
  proof (cases "length s < i")
    case True
    then show ?thesis by (subst finditer_from.simps) simp
  next
    case False
    then have up: "[i..<Suc (length s)] = i # [Suc i..<Suc (length s)]"
      by (simp add: upt_conv_Cons)
    show ?thesis
    proof (cases "m s i")
      case None
      have "finditer_from m s (Suc i) = concat (map ?f [Suc i..<Suc (length s)])"
        by (rule "1.IH"(1) [OF False None "1.prems"])
      moreover have "finditer_from m s i = finditer_from m s (Suc i)"
        using False None by (subst finditer_from.simps) simp
      moreover have "concat (map ?f [i..<Suc (length s)]) = concat (map ?f [Suc i..<Suc (length s)])"
        unfolding up using None by (simp del: upt_Suc)
      ultimately show ?thesis by (simp del: upt_Suc)
    next
      case (Some ge)
      obtain g e where ge: "ge = (g, e)" by (cases ge)
      from "1.prems" Some ge have e: "i < e" "e \<le> length s"
        and none: "\<forall>q. i < q \<and> q < e \<longrightarrow> m s q = None"
        unfolding skips_def by blast+
      from e have mx: "max e (Suc i) = e" by simp
      have "finditer_from m s (max e (Suc i)) = concat (map ?f [max e (Suc i)..<Suc (length s)])"
        by (rule "1.IH"(2) [OF False Some ge [symmetric] "1.prems"])
      then have ih: "finditer_from m s e = concat (map ?f [e..<Suc (length s)])"
        unfolding mx .
      from e have "Suc i \<le> e" and k: "Suc (length s) = e + (Suc (length s) - e)"
        by simp_all
      then have "[Suc i..<e + (Suc (length s) - e)] =
          [Suc i..<e] @ [e..<e + (Suc (length s) - e)]"
        by (intro upt_add_eq_append)
      then have split: "[Suc i..<Suc (length s)] = [Suc i..<e] @ [e..<Suc (length s)]"
        unfolding k [symmetric] .
      have "\<And>q. q \<in> set [Suc i..<e] \<Longrightarrow> ?f q = []"
        using none by simp
      then have "concat (map ?f [Suc i..<e]) = []"
        by (simp del: upt_Suc)
      then have "concat (map ?f [i..<Suc (length s)]) = g # concat (map ?f [e..<Suc (length s)])"
        unfolding up split using Some ge by (simp del: upt_Suc)
      moreover have "finditer_from m s i = g # finditer_from m s e"
        using False Some ge mx by (subst finditer_from.simps) simp
      ultimately show ?thesis
        using ih by (simp del: upt_Suc)
    qed
  qed
qed

lemma skips_bpm: "skips bpm_match_at s"
  unfolding skips_def using bpm_match_at_skip by blast

lemma tokens_at_beyond:
  "length s \<le> Suc j \<Longrightarrow> tokens_at R s j = []"
  by (simp add: tokens_at_def tempo_token_def digits_at_def)

lemma finditer_bpm_tokens:
  "finditer_from bpm_match_at s 0 = tempo_tokens right_delimited_nl s"
proof -
  let ?T = "tokens_at right_delimited_nl s"
  let ?n = "length s"
  have "finditer_from bpm_match_at s 0 = concat (map (matches_at s) [0..<Suc ?n])"
    using finditer_from_all_positions [OF skips_bpm, of s 0]
    unfolding matches_at_def .
  also have "[0..<Suc ?n] = 0 # [Suc 0..<Suc ?n]"
    by (rule upt_conv_Cons) simp
  also have "concat (map (matches_at s) (0 # [Suc 0..<Suc ?n])) =
      ?T 0 @ ?T 1 @ concat (map (matches_at s) [Suc 0..<Suc ?n])"
    by (simp add: matches_at_0 del: upt_Suc)
  also have "map (matches_at s) [Suc 0..<Suc ?n] = map (\<lambda>p. ?T (Suc p)) [Suc 0..<Suc ?n]"
    by (rule map_cong) (auto simp: matches_at_pos simp del: upt_Suc)
  also have "\<dots> = map ?T (map Suc [Suc 0..<Suc ?n])"
    by (simp add: comp_def del: upt_Suc)
  also have "map Suc [Suc 0..<Suc ?n] = [Suc (Suc 0)..<Suc (Suc ?n)]"
    by (rule map_Suc_upt)
  also have "?T 0 @ ?T 1 @ concat (map ?T [Suc (Suc 0)..<Suc (Suc ?n)]) =
      concat (map ?T [0..<Suc (Suc ?n)])"
    by (simp add: upt_conv_Cons del: upt_Suc)
  also have "[0..<Suc (Suc ?n)] = [0..<?n] @ [?n, Suc ?n]"
    by simp
  also have "concat (map ?T ([0..<?n] @ [?n, Suc ?n])) = concat (map ?T [0..<?n])"
    by (simp add: tokens_at_beyond)
  finally show ?thesis
    by (simp add: tempo_tokens_def)
qed

lemma is_delim_code: "is_delim c \<longleftrightarrow> code c = 32 \<or> code c = 95 \<or> code c = 45"
proof -
  have "code CHR '' '' = 32" "code CHR ''_'' = 95" "code CHR ''-'' = 45"
    by (simp_all add: code_def)
  then show ?thesis
    unfolding is_delim_def by (metis code_eq_iff)
qed

lemma newline_code: "c = newline \<longleftrightarrow> code c = 10"
proof -
  have "code newline = 10" by (simp add: code_def newline_def)
  then show ?thesis by (metis code_eq_iff)
qed

lemma lower_char_digit [simp]: "is_digit (lower_char c) = is_digit c"
  by (auto simp: is_digit_def code_lower_char is_upper_def)

lemma lower_char_delim [simp]: "is_delim (lower_char c) = is_delim c"
  by (auto simp: is_delim_code code_lower_char is_upper_def)

lemma lower_char_newline [simp]: "(lower_char c = newline) = (c = newline)"
  by (auto simp: newline_code code_lower_char is_upper_def)

lemma lower_char_digit_id: "is_digit c \<Longrightarrow> lower_char c = c"
  by (auto simp: lower_char_def is_digit_def is_upper_def)

lemma lc_digits: "list_all is_digit g \<Longrightarrow> lc g = g"
  unfolding lc_def by (induction g) (simp_all add: lower_char_digit_id)

lemma length_lc [simp]: "length (lc s) = length s"
  by (simp add: lc_def)

lemma digits_at_lc [simp]: "digits_at (lc s) j n = digits_at s j n"
  by (simp add: digits_at_def lc_def drop_map take_map list_all_iff)

lemma right_delimited_nl_lc [simp]: "right_delimited_nl (lc s) e = right_delimited_nl s e"
  by (auto simp: right_delimited_nl_def right_delimited_def lc_def)

lemma tempo_token_lc [simp]:
  "tempo_token right_delimited_nl (lc s) j n = tempo_token right_delimited_nl s j n"
proof (cases "digits_at s j n")
  case True
  then have "j = 0 \<or> j - 1 < length s"
    by (auto simp: digits_at_def)
  then have "left_delimited (lc s) j = left_delimited s j"
    by (auto simp: left_delimited_def lc_def)
  then show ?thesis by (simp add: tempo_token_def)
next
  case False
  then show ?thesis by (simp add: tempo_token_def)
qed

lemma tokens_at_lc:
  "tokens_at right_delimited_nl (lc s) j = tokens_at right_delimited_nl s j"
proof -
  have "take n (drop j (lc s)) = take n (drop j s)"
    if "n \<in> set (filter (tempo_token right_delimited_nl s j) [2, 3])" for n
  proof -
    from that have "tempo_token right_delimited_nl s j n"
      unfolding set_filter by blast
    then have "list_all is_digit (take n (drop j s))"
      by (simp add: tempo_token_def digits_at_def)
    then have "lc (take n (drop j s)) = take n (drop j s)"
      by (rule lc_digits)
    then show ?thesis
      by (simp add: lc_def drop_map take_map)
  qed
  then show ?thesis
    unfolding tokens_at_def tempo_token_lc by (intro map_cong refl)
qed

lemma tempo_tokens_lc:
  "tempo_tokens right_delimited_nl (lc s) = tempo_tokens right_delimited_nl s"
proof -
  have "tokens_at right_delimited_nl (lc s) = tokens_at right_delimited_nl s"
    by (rule ext) (rule tokens_at_lc)
  then show ?thesis
    by (simp add: tempo_tokens_def)
qed

text \<open>
  C4 claims that \<open>get_bpm\<close> returns the last token of two or three digits that has the
  start of the stem or a delimiter before it and the end of the stem or a delimiter
  after it, and whose value lies in [40, 200). The stem \<^verbatim>\<open>120\<close> followed by a newline
  (the file \<^verbatim>\<open>120\n.wav\<close>) has no such token, as the newline follows the digits, yet
  \<open>get_bpm\<close> returns 120: \<^verbatim>\<open>$\<close> matches just before a final newline.
\<close>

theorem get_bpm_counterexample:
  "get_bpm (''120'' @ [newline]) = Some 120 \<and>
   last_tempo right_delimited (''120'' @ [newline]) = None"
  by code_simp

text \<open>
  C4, amended: \<open>get_bpm\<close> returns the value of the last token of two or three digits
  that has the start of the stem, a space, an underscore or a hyphen before it, and
  after it the end of the stem, a space, an underscore, a hyphen, or a newline that is
  the last character of the stem, and whose value lies in [40, 200); it returns nothing
  when there is no such token, and never a value outside [40, 200).
\<close>

theorem get_bpm_last_token:
  "get_bpm stem = last_tempo right_delimited_nl stem \<and>
   (\<forall>b. get_bpm stem = Some b \<longrightarrow> 40 \<le> b \<and> b < 200)"
proof
  show eq: "get_bpm stem = last_tempo right_delimited_nl stem"
    by (simp add: get_bpm_def last_tempo_def Let_def finditer_bpm_tokens tempo_tokens_lc)
  show "\<forall>b. get_bpm stem = Some b \<longrightarrow> 40 \<le> b \<and> b < 200"
  proof (intro allI impI)
    fix b
    let ?vs = "filter (\<lambda>b. 40 \<le> b \<and> b < 200)
                 (map int_of_digits (finditer_from bpm_match_at (lc stem) 0))"
    assume "get_bpm stem = Some b"
    then have "?vs \<noteq> []" and "b = last ?vs"
      by (auto simp: get_bpm_def Let_def split: if_splits)
    then have "b \<in> set ?vs"
      using last_in_set [of ?vs] by blast
    then show "40 \<le> b \<and> b < 200"
      unfolding set_filter by blast
  qed
qed

text \<open>The amended C4 at a stem with two tempo tokens: the last one wins.\<close>

theorem get_bpm_last_token_witness:
  "get_bpm ''Kick_90_Piano_120_cm'' = Some 120 \<and>
   last_tempo right_delimited_nl ''Kick_90_Piano_120_cm'' = Some 120 \<and>
   (40::nat) \<le> 120 \<and> (120::nat) < 200"
proof -
  have "get_bpm ''Kick_90_Piano_120_cm'' = Some 120"
    by code_simp
  with get_bpm_last_token [of "''Kick_90_Piano_120_cm''"] show ?thesis
    by simp
qed

end
